theory Spec2Isabelle
  imports Complex_Main "HOL-Library.AList" "HOL-Library.Word" "HOL-Library.Product_Lexorder"
begin

section \<open>The downloader: data model\<close>

text \<open>
  The orchestrator of \<^verbatim>\<open>internal/downloader/downloader.go\<close> owns all its state and handles
  one event of its \<^verbatim>\<open>select\<close> loop at a time, so every case of the loop in \<^verbatim>\<open>Run\<close> is a
  function from the state to the new state.

  \<^item> A \<^verbatim>\<open>*peer.Peer\<close> (the transport handle, the key of every map) is a \<open>peer_ref\<close>.
  \<^item> A \<^verbatim>\<open>*Peer\<close> (the downloader's own per-peer struct) is an address \<open>Peer_ref\<close> into the
    store \<open>heap\<close> of the state: the same struct is reached from \<^verbatim>\<open>connectedPeers\<close>, from
    \<^verbatim>\<open>havingPeers\<close> and from \<^verbatim>\<open>optimisticUnchokedPeer\<close>, and it is mutated through all of them.
    A \<^verbatim>\<open>nil\<close> pointer is \<open>None\<close>.
  \<^item> A Go map is an association list that holds each key once (\<open>AList.update\<close> and
    \<open>AList.delete\<close> keep it so). The order of the list stands for the order in which
    \<^verbatim>\<open>range\<close> visits the map, which Go leaves unspecified: every statement below holds for
    every order.
  \<^item> A panic of the Go runtime is the value \<open>Inl\<close> of a sum type.
  \<^item> Calls that leave the orchestrator (messages sent to peers by \<^verbatim>\<open>go pe.Send...\<close>,
    channel sends, calls of the semaphore \<^verbatim>\<open>downloaders\<close>, tasks started) are appended to the
    list \<open>effects\<close>, each under the name the source gives it. Log lines are not recorded.
\<close>

type_synonym peer_ref = nat
type_synonym Peer_ref = nat

text \<open>
  The structs \<^verbatim>\<open>Peer\<close> and \<^verbatim>\<open>Piece\<close> of the package are declared in files that are not under
  src/: their fields are the ones that \<^verbatim>\<open>downloader.go\<close> reads and writes. The field \<open>Peer\<close> is
  the embedded \<^verbatim>\<open>*peer.Peer\<close>, \<open>Index\<close> is the index of the embedded piece of the torrent data.
  A \<open>PieceDownloader\<close> is what \<^verbatim>\<open>piecedownloader.New(piece, peer)\<close> is given, as the loop reads
  it back: \<^verbatim>\<open>pd.Piece.Index\<close> and \<^verbatim>\<open>pd.Peer\<close>.
\<close>

record Peer =
  Peer :: peer_ref
  amInterested :: bool
  amChoking :: bool
  peerChoking :: bool
  optimisticUnhoked :: bool
  bytesDownlaodedInChokePeriod :: "64 word"

record PieceDownloader =
  pdPiece :: nat
  pdPeer :: peer_ref

record Piece =
  Index :: nat
  havingPeers :: "(peer_ref \<times> Peer_ref option) list"
  allowedFastPeers :: "(peer_ref \<times> Peer_ref option) list"
  requestedPeers :: "(peer_ref \<times> PieceDownloader) list"
  writing :: bool

datatype panic = IndexOutOfRange | NilPointerDereference | InvalidArgumentToIntn

datatype effect =
    SendChoke peer_ref
  | SendUnchoke peer_ref
  | SendInterested peer_ref
  | SendNotInterested peer_ref
  | SendHave peer_ref nat
  | Signal nat
  | Block
  | StartDownloader PieceDownloader
  | UnchokeC PieceDownloader
  | ChokeC PieceDownloader
  | PieceC PieceDownloader
  | SendReject peer_ref nat nat nat
  | GoSendPiece peer_ref nat nat nat
  | WriteRequest nat "8 word list"
  | ErrC string
  | CheckCompletion

record Downloader =
  bitfield :: "bool list"
  pieces :: "Piece list"
  sortedPieces :: "nat list"
  connectedPeers :: "(peer_ref \<times> Peer_ref) list"
  downloads :: "(peer_ref \<times> PieceDownloader) list"
  optimisticUnchokedPeer :: "Peer_ref option"
  heap :: "Peer_ref \<Rightarrow> Peer"
  nextPeer :: Peer_ref
  effects :: "effect list"

text \<open>
  \<open>sortedPieces\<close> holds pointers into \<open>pieces\<close> (\<^verbatim>\<open>sortedPieces[i] = &pieces[i]\<close>): positions
  of the list \<open>pieces\<close>. \<open>nextPeer\<close> is the next free address of the store, used by the
  allocation \<^verbatim>\<open>&Peer{...}\<close> of the \<^verbatim>\<open>Connect\<close> case.
\<close>

text \<open>Go's \<^verbatim>\<open>_, ok := m[k]\<close>.\<close>

definition has :: "'k \<Rightarrow> ('k \<times> 'v) list \<Rightarrow> bool" where
  "has k m = (map_of m k \<noteq> None)"

text \<open>
  Modelled from the spec: the bitfield of \<^verbatim>\<open>torrentdata.Data\<close> (package not under src/), an
  ordered sequence of bits with \<^verbatim>\<open>Len\<close>, \<^verbatim>\<open>Test\<close> and \<^verbatim>\<open>Set\<close>.
\<close>

definition Test :: "bool list \<Rightarrow> nat \<Rightarrow> bool" where
  "Test bf i = (i < length bf \<and> bf ! i)"

definition Set :: "bool list \<Rightarrow> nat \<Rightarrow> bool list" where
  "Set bf i = bf[i := True]"

definition zeroPeer :: Peer where
  "zeroPeer = \<lparr>Peer = 0, amInterested = False, amChoking = False, peerChoking = False,
     optimisticUnhoked = False, bytesDownlaodedInChokePeriod = 0\<rparr>"

text \<open>
  \<^verbatim>\<open>New\<close>: one \<^verbatim>\<open>Piece\<close> per piece of the torrent data, with empty maps, and the pointers to
  them in index order. The arguments are what \<^verbatim>\<open>New\<close> reads of \<^verbatim>\<open>torrentdata.Data\<close>: the
  number of pieces and the bitfield. The piece at position \<open>i\<close> carries the index \<open>i\<close>: the
  indices come with the torrent data, and the loop reads \<^verbatim>\<open>d.pieces\<close> at them.
\<close>

definition New :: "nat \<Rightarrow> bool list \<Rightarrow> Downloader" where
  "New n bf = \<lparr>bitfield = bf,
     pieces = map (\<lambda>i. \<lparr>Index = i, havingPeers = [], allowedFastPeers = [],
                         requestedPeers = [], writing = False\<rparr>) [0..<n],
     sortedPieces = [0..<n],
     connectedPeers = [], downloads = [], optimisticUnchokedPeer = None,
     heap = (\<lambda>_. zeroPeer), nextPeer = 0, effects = []\<rparr>"

section \<open>Choking\<close>

definition chokePeer :: "Peer_ref \<Rightarrow> Downloader \<Rightarrow> Downloader" where
  "chokePeer pe d =
     (if \<not> amChoking (heap d pe)
      then d\<lparr>heap := (heap d)(pe := (heap d pe)\<lparr>amChoking := True\<rparr>),
             effects := effects d @ [SendChoke (Peer (heap d pe))]\<rparr>
      else d)"

definition unchokePeer :: "Peer_ref \<Rightarrow> Downloader \<Rightarrow> Downloader" where
  "unchokePeer pe d =
     (if amChoking (heap d pe)
      then d\<lparr>heap := (heap d)(pe := (heap d pe)\<lparr>amChoking := False\<rparr>),
             effects := effects d @ [SendUnchoke (Peer (heap d pe))]\<rparr>
      else d)"

text \<open>
  \<^verbatim>\<open>rand.Intn(n)\<close> of the Go library panics when \<open>n \<le> 0\<close> and returns a number below \<open>n\<close>
  otherwise; \<open>rnd\<close> is the state of the random source.
\<close>

definition Intn :: "nat \<Rightarrow> nat \<Rightarrow> panic + nat" where
  "Intn rnd n = (if n = 0 then Inl InvalidArgumentToIntn else Inr (rnd mod n))"

text \<open>The case \<^verbatim>\<open><-optimisticUnchokeTimer.C\<close> of \<^verbatim>\<open>Run\<close>.\<close>

definition Run_optimisticUnchokeTimer :: "nat \<Rightarrow> Downloader \<Rightarrow> panic + Downloader" where
  "Run_optimisticUnchokeTimer rnd d =
     (let peers = map snd (filter (\<lambda>(k, pe). \<not> optimisticUnhoked (heap d pe) \<and> amChoking (heap d pe))
                             (connectedPeers d));
          d1 = (case optimisticUnchokedPeer d of
                  None \<Rightarrow> d
                | Some p0 \<Rightarrow>
                    chokePeer p0 (d\<lparr>heap := (heap d)(p0 := (heap d p0)\<lparr>optimisticUnhoked := False\<rparr>)\<rparr>))
      in case Intn rnd (length peers) of
           Inl e \<Rightarrow> Inl e
         | Inr i \<Rightarrow>
             (let pe = peers ! i;
                  d2 = d1\<lparr>heap := (heap d1)(pe := (heap d1 pe)\<lparr>optimisticUnhoked := True\<rparr>)\<rparr>;
                  d3 = unchokePeer pe d2
              in Inr (d3\<lparr>optimisticUnchokedPeer := Some pe\<rparr>)))"

section \<open>Interest\<close>

text \<open>
  The loop of \<^verbatim>\<open>updateInterestedState\<close> over \<^verbatim>\<open>i < d.data.Bitfield().Len()\<close>, run on the list
  of the indices still to visit. \<^verbatim>\<open>d.pieces[i]\<close> panics out of range, \<^verbatim>\<open>pe.Peer\<close> panics on a
  \<^verbatim>\<open>nil\<close> peer; the loop breaks at the first piece that we lack and the peer has.
\<close>

fun interestedLoop :: "Downloader \<Rightarrow> Peer_ref option \<Rightarrow> nat list \<Rightarrow> panic + bool" where
  "interestedLoop d pe [] = Inr False"
| "interestedLoop d pe (i # rest) =
     (if length (pieces d) \<le> i then Inl IndexOutOfRange
      else case pe of
             None \<Rightarrow> Inl NilPointerDereference
           | Some a \<Rightarrow>
               (let weHave = Test (bitfield d) i;
                    peerHave = has (Peer (heap d a)) (havingPeers (pieces d ! i))
                in if \<not> weHave \<and> peerHave then Inr True else interestedLoop d pe rest))"

definition updateInterestedState :: "Peer_ref option \<Rightarrow> Downloader \<Rightarrow> panic + Downloader" where
  "updateInterestedState pe d =
     (case interestedLoop d pe [0..<length (bitfield d)] of
        Inl e \<Rightarrow> Inl e
      | Inr interested \<Rightarrow>
          (case pe of
             None \<Rightarrow> Inl NilPointerDereference
           | Some a \<Rightarrow>
               if \<not> amInterested (heap d a) \<and> interested
               then Inr (d\<lparr>heap := (heap d)(a := (heap d a)\<lparr>amInterested := True\<rparr>),
                           effects := effects d @ [SendInterested (Peer (heap d a))]\<rparr>)
               else if amInterested (heap d a) \<and> \<not> interested
               then Inr (d\<lparr>heap := (heap d)(a := (heap d a)\<lparr>amInterested := False\<rparr>),
                           effects := effects d @ [SendNotInterested (Peer (heap d a))]\<rparr>)
               else Inr d))"

text \<open>
  The predicate of the spec: we are interested in peer \<open>k\<close> iff some piece that we lack is
  among the pieces \<open>k\<close> has.
\<close>

definition interestedIn :: "Downloader \<Rightarrow> peer_ref \<Rightarrow> bool" where
  "interestedIn d k =
     (\<exists>i<length (pieces d). \<not> Test (bitfield d) i \<and> has k (havingPeers (pieces d ! i)))"

section \<open>Write responses\<close>

text \<open>
  The loop \<^verbatim>\<open>for _, pe := range d.connectedPeers\<close> of the case \<^verbatim>\<open><-d.writeResponses\<close>:
  \<^verbatim>\<open>go pe.SendHave(idx)\<close>, then \<^verbatim>\<open>d.updateInterestedState(pe)\<close>.
\<close>

fun haveLoop :: "nat \<Rightarrow> (peer_ref \<times> Peer_ref) list \<Rightarrow> Downloader \<Rightarrow> panic + Downloader" where
  "haveLoop idx [] d = Inr d"
| "haveLoop idx ((k, pe) # rest) d =
     (case updateInterestedState (Some pe)
             (d\<lparr>effects := effects d @ [SendHave (Peer (heap d pe)) idx]\<rparr>) of
        Inl e \<Rightarrow> Inl e
      | Inr d' \<Rightarrow> haveLoop idx rest d')"

text \<open>
  The case \<^verbatim>\<open>resp := <-d.writeResponses\<close> of \<^verbatim>\<open>Run\<close>; \<open>idx\<close> is
  \<^verbatim>\<open>resp.Request.Piece.Index\<close> and \<open>err\<close> is \<^verbatim>\<open>resp.Error\<close> (\<open>None\<close> for \<^verbatim>\<open>nil\<close>).
\<close>

definition Run_writeResponses :: "nat \<Rightarrow> string option \<Rightarrow> Downloader \<Rightarrow> panic + Downloader" where
  "Run_writeResponses idx err d =
     (if length (pieces d) \<le> idx then Inl IndexOutOfRange
      else
        (let d1 = d\<lparr>pieces := (pieces d)[idx := (pieces d ! idx)\<lparr>writing := False\<rparr>]\<rparr>
         in case err of
              Some e \<Rightarrow> Inr (d1\<lparr>effects := effects d1 @ [ErrC e]\<rparr>)
            | None \<Rightarrow>
                haveLoop idx (connectedPeers d1)
                  (d1\<lparr>bitfield := Set (bitfield d1) idx,
                      effects := effects d1 @ [CheckCompletion]\<rparr>)))"

section \<open>The selector\<close>

text \<open>
  Modelled from the spec: the order \<^verbatim>\<open>ByAvailability\<close> that \<^verbatim>\<open>nextDownload\<close> passes to
  \<^verbatim>\<open>sort.Sort\<close> is declared in a file that is not under src/. The spec: availability
  ascending, key \<^verbatim>\<open>len(having_peers)\<close>, ties broken by piece index. The key of the pointer \<open>x\<close>
  into \<open>pieces\<close> is that pair, ordered lexicographically.
\<close>

definition ByAvailability :: "Piece list \<Rightarrow> nat \<Rightarrow> nat \<times> nat" where
  "ByAvailability ps x = (length (havingPeers (ps ! x)), Index (ps ! x))"

text \<open>
  The first loop over \<^verbatim>\<open>p.havingPeers\<close> in \<^verbatim>\<open>nextDownload\<close>: the first peer that allowed the
  piece fast and has no download running. \<^verbatim>\<open>pe.Peer\<close> panics on a \<^verbatim>\<open>nil\<close> value of the map.
\<close>

fun allowedFastLoop ::
  "Downloader \<Rightarrow> Piece \<Rightarrow> (peer_ref \<times> Peer_ref option) list \<Rightarrow> panic + peer_ref option" where
  "allowedFastLoop d p [] = Inr None"
| "allowedFastLoop d p ((k, pe) # rest) =
     (case pe of
        None \<Rightarrow> Inl NilPointerDereference
      | Some a \<Rightarrow>
          if \<not> has (Peer (heap d a)) (allowedFastPeers p) then allowedFastLoop d p rest
          else if has (Peer (heap d a)) (downloads d) then allowedFastLoop d p rest
          else Inr (Some (Peer (heap d a))))"

text \<open>The second loop: the first peer that is not choking us and has no download running.\<close>

fun unchokedLoop ::
  "Downloader \<Rightarrow> (peer_ref \<times> Peer_ref option) list \<Rightarrow> panic + peer_ref option" where
  "unchokedLoop d [] = Inr None"
| "unchokedLoop d ((k, pe) # rest) =
     (case pe of
        None \<Rightarrow> Inl NilPointerDereference
      | Some a \<Rightarrow>
          if peerChoking (heap d a) then unchokedLoop d rest
          else if has (Peer (heap d a)) (downloads d) then unchokedLoop d rest
          else Inr (Some (Peer (heap d a))))"

text \<open>The loop over \<^verbatim>\<open>d.sortedPieces\<close>; \<open>x\<close> is a pointer into \<open>pieces\<close>.\<close>

fun piecesLoop :: "Downloader \<Rightarrow> nat list \<Rightarrow> panic + PieceDownloader option" where
  "piecesLoop d [] = Inr None"
| "piecesLoop d (x # rest) =
     (let p = pieces d ! x
      in if Test (bitfield d) (Index p) then piecesLoop d rest
         else if length (requestedPeers p) > 0 then piecesLoop d rest
         else if writing p then piecesLoop d rest
         else if length (havingPeers p) = 0 then piecesLoop d rest
         else
           (case allowedFastLoop d p (havingPeers p) of
              Inl e \<Rightarrow> Inl e
            | Inr (Some k) \<Rightarrow> Inr (Some \<lparr>pdPiece = Index p, pdPeer = k\<rparr>)
            | Inr None \<Rightarrow>
                (case unchokedLoop d (havingPeers p) of
                   Inl e \<Rightarrow> Inl e
                 | Inr (Some k) \<Rightarrow> Inr (Some \<lparr>pdPiece = Index p, pdPeer = k\<rparr>)
                 | Inr None \<Rightarrow> piecesLoop d rest)))"

text \<open>
  \<^verbatim>\<open>nextDownload\<close> sorts \<^verbatim>\<open>d.sortedPieces\<close> in place and scans it. The order of the spec is
  total on pointers to pieces of different indices, so every sorting algorithm gives the
  list that \<open>sort_key\<close> gives. The result is the downloader made by
  \<^verbatim>\<open>piecedownloader.New(p.Piece, pe.Peer)\<close> (\<open>None\<close> for \<^verbatim>\<open>nil\<close>) and the state.
\<close>

definition nextDownload :: "Downloader \<Rightarrow> panic + PieceDownloader option \<times> Downloader" where
  "nextDownload d =
     (let d' = d\<lparr>sortedPieces := sort_key (ByAvailability (pieces d)) (sortedPieces d)\<rparr>
      in case piecesLoop d' (sortedPieces d') of
           Inl e \<Rightarrow> Inl e
         | Inr r \<Rightarrow> Inr (r, d'))"

text \<open>
  The predicates of the spec. A piece is eligible iff we lack it, nobody is asked for it,
  it is not being written and some peer has it. A peer survives as a candidate for a piece
  when it has the piece, has no active download, and either allowed the piece fast or is
  not choking us.
\<close>

definition eligible :: "Downloader \<Rightarrow> Piece \<Rightarrow> bool" where
  "eligible d p = (\<not> Test (bitfield d) (Index p) \<and> requestedPeers p = [] \<and> \<not> writing p
                    \<and> havingPeers p \<noteq> [])"

definition fastCandidate :: "Downloader \<Rightarrow> Piece \<Rightarrow> Peer_ref \<Rightarrow> bool" where
  "fastCandidate d p a = (has (Peer (heap d a)) (allowedFastPeers p)
                            \<and> \<not> has (Peer (heap d a)) (downloads d))"

definition unchokedCandidate :: "Downloader \<Rightarrow> Peer_ref \<Rightarrow> bool" where
  "unchokedCandidate d a = (\<not> peerChoking (heap d a) \<and> \<not> has (Peer (heap d a)) (downloads d))"

definition schedulable :: "Downloader \<Rightarrow> Piece \<Rightarrow> bool" where
  "schedulable d p = (eligible d p
     \<and> (\<exists>a \<in> set (map snd (havingPeers p)).
           case a of None \<Rightarrow> False | Some a \<Rightarrow> fastCandidate d p a \<or> unchokedCandidate d a))"

section \<open>The cases of the event loop\<close>

text \<open>
  Before its loop, \<^verbatim>\<open>Run\<close> starts the piece writers, makes the semaphore \<^verbatim>\<open>downloaders\<close> and
  the two tickers; none of them is state of the \<^verbatim>\<open>Downloader\<close>. Each case of the \<^verbatim>\<open>select\<close>
  follows, under the name of its channel.
\<close>

text \<open>
  The case \<^verbatim>\<open><-downloaders.Wait\<close>: ask the selector; block the semaphore when it returns
  \<^verbatim>\<open>nil\<close>, else register the download under its peer and its piece and start it.
\<close>

definition Run_downloadersWait :: "Downloader \<Rightarrow> panic + Downloader" where
  "Run_downloadersWait d =
     (case nextDownload d of
        Inl e \<Rightarrow> Inl e
      | Inr (None, d1) \<Rightarrow> Inr (d1\<lparr>effects := effects d1 @ [Block]\<rparr>)
      | Inr (Some pd, d1) \<Rightarrow>
          (let d2 = d1\<lparr>downloads := AList.update (pdPeer pd) pd (downloads d1)\<rparr>
           in if length (pieces d2) \<le> pdPiece pd then Inl IndexOutOfRange
              else
                (let p = pieces d2 ! pdPiece pd
                 in Inr (d2\<lparr>pieces := (pieces d2)[pdPiece pd :=
                                 p\<lparr>requestedPeers := AList.update (pdPeer pd) pd (requestedPeers p)\<rparr>],
                             effects := effects d2 @ [StartDownloader pd]\<rparr>))))"

text \<open>
  The case \<^verbatim>\<open>pd := <-d.downloadDone\<close>. What the finished downloader delivers is chosen by
  the inner \<^verbatim>\<open>select\<close>: the bytes on \<^verbatim>\<open>pd.DoneC\<close> (with the flag whether the send on
  \<^verbatim>\<open>d.writeRequests\<close> is taken, or \<^verbatim>\<open>stopC\<close> instead), an error on \<^verbatim>\<open>pd.ErrC\<close>, or \<^verbatim>\<open>stopC\<close>.
  \<open>Verify\<close> is the hash check of the piece store, by piece index. The loop goes on
  (\<open>Continue\<close>) or \<^verbatim>\<open>Run\<close> returns (\<open>Return\<close>).
\<close>

datatype doneResult = DoneC "8 word list" bool | ErrorC string | StopC

datatype 'a control = Continue 'a | Return 'a

definition Run_downloadDone ::
  "(nat \<Rightarrow> 8 word list \<Rightarrow> bool) \<Rightarrow> PieceDownloader \<Rightarrow> doneResult \<Rightarrow> Downloader
     \<Rightarrow> panic + Downloader control" where
  "Run_downloadDone Verify pd res d =
     (let d0 = d\<lparr>downloads := AList.delete (pdPeer pd) (downloads d)\<rparr>
      in if length (pieces d0) \<le> pdPiece pd then Inl IndexOutOfRange
         else
           (let p = pieces d0 ! pdPiece pd;
                d1 = d0\<lparr>pieces := (pieces d0)[pdPiece pd :=
                            p\<lparr>requestedPeers := AList.delete (pdPeer pd) (requestedPeers p)\<rparr>],
                        effects := effects d0 @ [Signal 1]\<rparr>
            in case res of
                 DoneC buf sent \<Rightarrow>
                   if \<not> Verify (pdPiece pd) buf then Inr (Continue d1)
                   else if sent
                   then Inr (Continue
                          (d1\<lparr>effects := effects d1 @ [WriteRequest (pdPiece pd) buf],
                              pieces := (pieces d1)[pdPiece pd :=
                                          (pieces d1 ! pdPiece pd)\<lparr>writing := True\<rparr>]\<rparr>))
                   else Inr (Return d1)
               | ErrorC err \<Rightarrow> Inr (Continue d1)
               | StopC \<Rightarrow> Inr (Return d1)))"

text \<open>The case \<^verbatim>\<open>msg := <-d.messages.Have\<close>.\<close>

definition Run_Have :: "peer_ref \<Rightarrow> nat \<Rightarrow> Downloader \<Rightarrow> panic + Downloader" where
  "Run_Have k idx d =
     (let d0 = d\<lparr>effects := effects d @ [Signal 1]\<rparr>
      in if length (pieces d0) \<le> idx then Inl IndexOutOfRange
         else
           (let pe = map_of (connectedPeers d0) k;
                p = pieces d0 ! idx;
                d1 = d0\<lparr>pieces := (pieces d0)[idx :=
                            p\<lparr>havingPeers := AList.update k pe (havingPeers p)\<rparr>]\<rparr>
            in updateInterestedState pe d1))"

text \<open>The case \<^verbatim>\<open>msg := <-d.messages.Bitfield\<close>; \<open>bf\<close> is the bitfield of the message.\<close>

fun bitfieldLoop :: "peer_ref \<Rightarrow> bool list \<Rightarrow> nat list \<Rightarrow> Downloader \<Rightarrow> panic + Downloader" where
  "bitfieldLoop k bf [] d = Inr d"
| "bitfieldLoop k bf (i # rest) d =
     (if Test bf i
      then if length (pieces d) \<le> i then Inl IndexOutOfRange
           else bitfieldLoop k bf rest
                  (d\<lparr>pieces := (pieces d)[i := (pieces d ! i)
                        \<lparr>havingPeers := AList.update k (map_of (connectedPeers d) k)
                                           (havingPeers (pieces d ! i))\<rparr>]\<rparr>)
      else bitfieldLoop k bf rest d)"

definition Run_Bitfield :: "peer_ref \<Rightarrow> bool list \<Rightarrow> Downloader \<Rightarrow> panic + Downloader" where
  "Run_Bitfield k bf d =
     (case bitfieldLoop k bf [0..<length bf] d of
        Inl e \<Rightarrow> Inl e
      | Inr d1 \<Rightarrow>
          updateInterestedState (map_of (connectedPeers d1) k)
            (d1\<lparr>effects := effects d1 @ [Signal (length (filter (\<lambda>b. b) bf))]\<rparr>))"

text \<open>The case \<^verbatim>\<open>pe := <-d.messages.HaveAll\<close>.\<close>

definition Run_HaveAll :: "peer_ref \<Rightarrow> Downloader \<Rightarrow> panic + Downloader" where
  "Run_HaveAll k d =
     (let pe = map_of (connectedPeers d) k;
          d1 = d\<lparr>pieces := map (\<lambda>p. p\<lparr>havingPeers := AList.update k pe (havingPeers p)\<rparr>) (pieces d),
                 effects := effects d @ [Signal (length (pieces d))]\<rparr>
      in updateInterestedState pe d1)"

text \<open>The case \<^verbatim>\<open>msg := <-d.messages.AllowedFast\<close>.\<close>

definition Run_AllowedFast :: "peer_ref \<Rightarrow> nat \<Rightarrow> Downloader \<Rightarrow> panic + Downloader" where
  "Run_AllowedFast k idx d =
     (if length (pieces d) \<le> idx then Inl IndexOutOfRange
      else
        (let p = pieces d ! idx
         in Inr (d\<lparr>pieces := (pieces d)[idx :=
                      p\<lparr>allowedFastPeers := AList.update k (map_of (connectedPeers d) k)
                                                (allowedFastPeers p)\<rparr>]\<rparr>)))"

text \<open>The cases \<^verbatim>\<open>pe := <-d.messages.Unchoke\<close> and \<^verbatim>\<open>pe := <-d.messages.Choke\<close>.\<close>

definition Run_Unchoke :: "peer_ref \<Rightarrow> Downloader \<Rightarrow> panic + Downloader" where
  "Run_Unchoke k d =
     (let d0 = d\<lparr>effects := effects d @ [Signal 1]\<rparr>
      in case map_of (connectedPeers d0) k of
           None \<Rightarrow> Inl NilPointerDereference
         | Some a \<Rightarrow>
             (let d1 = d0\<lparr>heap := (heap d0)(a := (heap d0 a)\<lparr>peerChoking := False\<rparr>)\<rparr>
              in case map_of (downloads d1) k of
                   None \<Rightarrow> Inr d1
                 | Some pd \<Rightarrow> Inr (d1\<lparr>effects := effects d1 @ [UnchokeC pd]\<rparr>)))"

definition Run_Choke :: "peer_ref \<Rightarrow> Downloader \<Rightarrow> panic + Downloader" where
  "Run_Choke k d =
     (case map_of (connectedPeers d) k of
        None \<Rightarrow> Inl NilPointerDereference
      | Some a \<Rightarrow>
          (let d1 = d\<lparr>heap := (heap d)(a := (heap d a)\<lparr>peerChoking := True\<rparr>)\<rparr>
           in case map_of (downloads d1) k of
                None \<Rightarrow> Inr d1
              | Some pd \<Rightarrow> Inr (d1\<lparr>effects := effects d1 @ [ChokeC pd]\<rparr>)))"

text \<open>
  The case \<^verbatim>\<open>msg := <-d.messages.Piece\<close>; \<open>n\<close> is \<^verbatim>\<open>len(msg.Data)\<close>, added to the 64-bit
  counter of the peer.
\<close>

definition Run_Piece :: "peer_ref \<Rightarrow> nat \<Rightarrow> Downloader \<Rightarrow> panic + Downloader" where
  "Run_Piece k n d =
     (let d1 = (case map_of (connectedPeers d) k of
                  None \<Rightarrow> d
                | Some a \<Rightarrow>
                    d\<lparr>heap := (heap d)(a := (heap d a)\<lparr>bytesDownlaodedInChokePeriod :=
                         bytesDownlaodedInChokePeriod (heap d a) + word_of_nat n\<rparr>)\<rparr>)
      in case map_of (downloads d1) k of
           None \<Rightarrow> Inr d1
         | Some pd \<Rightarrow> Inr (d1\<lparr>effects := effects d1 @ [PieceC pd]\<rparr>))"

text \<open>
  The case \<^verbatim>\<open>msg := <-d.messages.Request\<close>; \<open>fast\<close> is \<^verbatim>\<open>msg.Peer.FastExtension\<close>. The task
  \<^verbatim>\<open>go d.sendPiece(pe, msg)\<close> is recorded as started.
\<close>

definition Run_Request :: "peer_ref \<Rightarrow> bool \<Rightarrow> nat \<Rightarrow> nat \<Rightarrow> nat \<Rightarrow> Downloader \<Rightarrow> panic + Downloader" where
  "Run_Request k fast idx begin len d =
     (case map_of (connectedPeers d) k of
        None \<Rightarrow> Inr d
      | Some a \<Rightarrow>
          if amChoking (heap d a)
          then if fast then Inr (d\<lparr>effects := effects d @ [SendReject k idx begin len]\<rparr>)
               else Inr d
          else Inr (d\<lparr>effects := effects d @ [GoSendPiece k idx begin len]\<rparr>))"

text \<open>
  Modelled from the spec: the order \<^verbatim>\<open>ByDownloadRate\<close> that the unchoke tick passes to
  \<^verbatim>\<open>sort.Sort\<close> is declared in a file that is not under src/. The spec: sort by
  \<^verbatim>\<open>bytes_downloaded_in_choke_period\<close> descending; the counter is a signed 64-bit integer.
\<close>

definition ByDownloadRate :: "(Peer_ref \<Rightarrow> Peer) \<Rightarrow> Peer_ref \<Rightarrow> int" where
  "ByDownloadRate h pe = - sint (bytesDownlaodedInChokePeriod (h pe))"

text \<open>
  The case \<^verbatim>\<open><-unchokeTimer.C\<close>. \<^verbatim>\<open>sort.Sort\<close> is not stable and the list it sorts is
  collected in the order of a map, so peers of equal counter come out in any order: here
  they keep the order of \<open>connectedPeers\<close>, which is arbitrary. \<^verbatim>\<open>unchokedPeers\<close> is keyed
  by the pointer to the struct. \<open>resetStep\<close> is the body of the loop that resets the counters,
  \<open>chokeStep\<close> the body of the last loop, which chokes the peers that were not unchoked.
\<close>

definition resetStep :: "Downloader \<Rightarrow> peer_ref \<times> Peer_ref \<Rightarrow> Downloader" where
  "resetStep = (\<lambda>s (k, pe). s\<lparr>heap := (heap s)(pe := (heap s pe)\<lparr>bytesDownlaodedInChokePeriod := 0\<rparr>)\<rparr>)"

definition chokeStep :: "Peer_ref list \<Rightarrow> Downloader \<Rightarrow> peer_ref \<times> Peer_ref \<Rightarrow> Downloader" where
  "chokeStep unchokedPeers = (\<lambda>s (k, pe). if pe \<in> set unchokedPeers then s else chokePeer pe s)"

definition Run_unchokeTimer :: "Downloader \<Rightarrow> panic + Downloader" where
  "Run_unchokeTimer d =
     (let peers = map snd (filter (\<lambda>(k, pe). \<not> optimisticUnhoked (heap d pe)) (connectedPeers d));
          sorted = sort_key (ByDownloadRate (heap d)) peers;
          d1 = foldl resetStep d (connectedPeers d);
          unchokedPeers = take 3 sorted;
          d2 = foldl (\<lambda>s pe. unchokePeer pe s) d1 unchokedPeers
      in Inr (foldl (chokeStep unchokedPeers) d2 (connectedPeers d)))"

text \<open>The cases \<^verbatim>\<open>p := <-d.messages.Connect\<close> and \<^verbatim>\<open>pe := <-d.messages.Disconnect\<close>.\<close>

definition Run_Connect :: "peer_ref \<Rightarrow> Downloader \<Rightarrow> panic + Downloader" where
  "Run_Connect p d =
     (let pe = nextPeer d;
          d1 = d\<lparr>heap := (heap d)(pe := \<lparr>Peer = p, amInterested = False, amChoking = True,
                                           peerChoking = True, optimisticUnhoked = False,
                                           bytesDownlaodedInChokePeriod = 0\<rparr>),
                 nextPeer := Suc pe,
                 connectedPeers := AList.update p pe (connectedPeers d)\<rparr>
      in if length (connectedPeers d1) \<le> 4 then Inr (unchokePeer pe d1) else Inr d1)"

definition Run_Disconnect :: "peer_ref \<Rightarrow> Downloader \<Rightarrow> panic + Downloader" where
  "Run_Disconnect pe d =
     Inr (d\<lparr>connectedPeers := AList.delete pe (connectedPeers d),
            pieces := map (\<lambda>p. p\<lparr>havingPeers := AList.delete pe (havingPeers p),
                                  allowedFastPeers := AList.delete pe (allowedFastPeers p),
                                  requestedPeers := AList.delete pe (requestedPeers p)\<rparr>)
                        (pieces d)\<rparr>)"

text \<open>
  The loop of \<^verbatim>\<open>Run\<close>: one event of the \<^verbatim>\<open>select\<close> at a time, until a panic, a return or
  the end of the events given.
\<close>

datatype event =
    DownloadersWait
  | DownloadDone PieceDownloader doneResult
  | WriteResponse nat "string option"
  | Have peer_ref nat
  | Bitfield peer_ref "bool list"
  | HaveAll peer_ref
  | AllowedFast peer_ref nat
  | Unchoke peer_ref
  | Choke peer_ref
  | PieceMsg peer_ref nat
  | Request peer_ref bool nat nat nat
  | UnchokeTimer
  | OptimisticUnchokeTimer nat
  | Connect peer_ref
  | Disconnect peer_ref
  | Stop

definition continue :: "panic + Downloader \<Rightarrow> panic + Downloader control" where
  "continue r = (case r of Inl e \<Rightarrow> Inl e | Inr d \<Rightarrow> Inr (Continue d))"

fun Run_select :: "(nat \<Rightarrow> 8 word list \<Rightarrow> bool) \<Rightarrow> event \<Rightarrow> Downloader \<Rightarrow> panic + Downloader control" where
  "Run_select V DownloadersWait d = continue (Run_downloadersWait d)"
| "Run_select V (DownloadDone pd res) d = Run_downloadDone V pd res d"
| "Run_select V (WriteResponse idx err) d = continue (Run_writeResponses idx err d)"
| "Run_select V (Have k idx) d = continue (Run_Have k idx d)"
| "Run_select V (Bitfield k bf) d = continue (Run_Bitfield k bf d)"
| "Run_select V (HaveAll k) d = continue (Run_HaveAll k d)"
| "Run_select V (AllowedFast k idx) d = continue (Run_AllowedFast k idx d)"
| "Run_select V (Unchoke k) d = continue (Run_Unchoke k d)"
| "Run_select V (Choke k) d = continue (Run_Choke k d)"
| "Run_select V (PieceMsg k n) d = continue (Run_Piece k n d)"
| "Run_select V (Request k fast idx begin len) d = continue (Run_Request k fast idx begin len d)"
| "Run_select V UnchokeTimer d = continue (Run_unchokeTimer d)"
| "Run_select V (OptimisticUnchokeTimer rnd) d = continue (Run_optimisticUnchokeTimer rnd d)"
| "Run_select V (Connect p) d = continue (Run_Connect p d)"
| "Run_select V (Disconnect pe) d = continue (Run_Disconnect pe d)"
| "Run_select V Stop d = Inr (Return d)"

fun Run :: "(nat \<Rightarrow> 8 word list \<Rightarrow> bool) \<Rightarrow> event list \<Rightarrow> Downloader \<Rightarrow> panic + Downloader control" where
  "Run V [] d = Inr (Continue d)"
| "Run V (e # es) d =
     (case Run_select V e d of
        Inl p \<Rightarrow> Inl p
      | Inr (Return d') \<Rightarrow> Inr (Return d')
      | Inr (Continue d') \<Rightarrow> Run V es d')"

section \<open>The announcer\<close>

text \<open>
  \<^verbatim>\<open>internal/announcer/announcer.go\<close>. A \<^verbatim>\<open>time.Duration\<close> is a number of nanoseconds. The
  back-off is the struct \<^verbatim>\<open>backoff.ExponentialBackOff\<close> of a library outside the repository:
  its exported fields are the ones the literal in \<^verbatim>\<open>New\<close> sets (the two \<^verbatim>\<open>float64\<close> fields
  hold 0.5 and 2, which are exact), \<open>unexported\<close> stands for the state the library keeps in
  it, and its methods \<^verbatim>\<open>NextBackOff\<close> and \<^verbatim>\<open>Reset\<close> are parameters of \<open>announce\<close>.
\<close>

type_synonym Duration = int

definition Second :: Duration where
  "Second = 1000000000"

definition Minute :: Duration where
  "Minute = 60 * Second"

datatype Clock = SystemClock

record 'i ExponentialBackOff =
  InitialInterval :: Duration
  RandomizationFactor :: rat
  Multiplier :: rat
  MaxInterval :: Duration
  MaxElapsedTime :: Duration
  Clock :: Clock
  unexported :: 'i

datatype Event = EventNone | EventCompleted | EventStarted | EventStopped

text \<open>
  What leaves the announcer: the request for a transfer snapshot on \<^verbatim>\<open>a.requests\<close>, the call
  \<^verbatim>\<open>a.tracker.Announce(transfer, e, stopC)\<close>, and the peers sent on \<^verbatim>\<open>a.peerList.NewPeers\<close>.
\<close>

datatype ('t, 'p) announcerEffect =
    RequestTransfer
  | TrackerAnnounce 't Event
  | NewPeers "'p list"

record ('i, 't, 'p) Announcer =
  backoff :: "'i ExponentialBackOff"
  nextAnnounce :: Duration
  completedC :: bool
  calls :: "('t, 'p) announcerEffect list"

text \<open>
  \<^verbatim>\<open>New\<close> of the announcer; \<open>z\<close> is the zero value of the library's unexported fields, and
  \<open>completedC\<close> tells whether the channel is not \<^verbatim>\<open>nil\<close>.
\<close>

definition Announcer_New :: "'i \<Rightarrow> ('i, 't, 'p) Announcer" where
  "Announcer_New z =
     \<lparr>backoff = \<lparr>InitialInterval = 5 * Second,
                  RandomizationFactor = 1 / 2,
                  Multiplier = 2,
                  MaxInterval = 30 * Minute,
                  MaxElapsedTime = 0,
                  Clock = SystemClock,
                  unexported = z\<rparr>,
      nextAnnounce = 0,
      completedC = True,
      calls = []\<rparr>"

text \<open>
  What happens around one call of \<^verbatim>\<open>announce\<close>: \<^verbatim>\<open>stopC\<close> wins the first or the second
  \<^verbatim>\<open>select\<close>; or the snapshot \<open>t\<close> arrives and the tracker returns an error; or it returns
  an interval and peers, and the last \<^verbatim>\<open>select\<close> sends the peers (\<open>True\<close>) or takes \<^verbatim>\<open>stopC\<close>.
\<close>

datatype ('t, 'p) announceEnv =
    StopAtRequest
  | StopAtResponse
  | AnnounceErr 't string
  | AnnounceOk 't Duration "'p list" bool

definition announce ::
  "('i ExponentialBackOff \<Rightarrow> Duration \<times> 'i ExponentialBackOff)
     \<Rightarrow> ('i ExponentialBackOff \<Rightarrow> 'i ExponentialBackOff)
     \<Rightarrow> Event \<Rightarrow> ('t, 'p) announceEnv \<Rightarrow> ('i, 't, 'p) Announcer \<Rightarrow> ('i, 't, 'p) Announcer" where
  "announce NextBackOff Reset e env a =
     (case env of
        StopAtRequest \<Rightarrow> a
      | StopAtResponse \<Rightarrow> a\<lparr>calls := calls a @ [RequestTransfer]\<rparr>
      | AnnounceErr t err \<Rightarrow>
          (let (next, b) = NextBackOff (backoff a)
           in a\<lparr>calls := calls a @ [RequestTransfer, TrackerAnnounce t e],
                 backoff := b, nextAnnounce := next\<rparr>)
      | AnnounceOk t interval peers pushed \<Rightarrow>
          a\<lparr>calls := calls a @ [RequestTransfer, TrackerAnnounce t e]
                    @ (if pushed then [NewPeers peers] else []),
             backoff := Reset (backoff a),
             nextAnnounce := interval\<rparr>)"

text \<open>
  \<^verbatim>\<open>Run\<close> of the announcer, on the events its \<^verbatim>\<open>select\<close> receives: the timer
  \<^verbatim>\<open>time.After(a.nextAnnounce)\<close>, the completion signal (received only while the channel is
  not \<^verbatim>\<open>nil\<close>), or \<^verbatim>\<open>stopC\<close>. \<open>first\<close> is what happens around the \<^verbatim>\<open>Started\<close> announce.
\<close>

datatype ('t, 'p) announcerEvent =
    TimeAfter "('t, 'p) announceEnv"
  | Completed "('t, 'p) announceEnv"
  | StopAnnouncer

fun Announcer_loop ::
  "('i ExponentialBackOff \<Rightarrow> Duration \<times> 'i ExponentialBackOff)
     \<Rightarrow> ('i ExponentialBackOff \<Rightarrow> 'i ExponentialBackOff)
     \<Rightarrow> ('t, 'p) announcerEvent list \<Rightarrow> ('i, 't, 'p) Announcer \<Rightarrow> ('i, 't, 'p) Announcer" where
  "Announcer_loop NextBackOff Reset [] a = a"
| "Announcer_loop NextBackOff Reset (TimeAfter env # es) a =
     Announcer_loop NextBackOff Reset es (announce NextBackOff Reset EventNone env a)"
| "Announcer_loop NextBackOff Reset (Completed env # es) a =
     (if completedC a
      then Announcer_loop NextBackOff Reset es
             ((announce NextBackOff Reset EventCompleted env a)\<lparr>completedC := False\<rparr>)
      else Announcer_loop NextBackOff Reset es a)"
| "Announcer_loop NextBackOff Reset (StopAnnouncer # es) a = a"

definition Announcer_Run ::
  "('i ExponentialBackOff \<Rightarrow> Duration \<times> 'i ExponentialBackOff)
     \<Rightarrow> ('i ExponentialBackOff \<Rightarrow> 'i ExponentialBackOff)
     \<Rightarrow> ('t, 'p) announceEnv \<Rightarrow> ('t, 'p) announcerEvent list
     \<Rightarrow> ('i, 't, 'p) Announcer \<Rightarrow> ('i, 't, 'p) Announcer" where
  "Announcer_Run NextBackOff Reset first es a =
     Announcer_loop NextBackOff Reset es
       (announce NextBackOff Reset EventStarted first (a\<lparr>backoff := Reset (backoff a)\<rparr>))"

section \<open>The invariant of the state\<close>

text \<open>
  What \<^verbatim>\<open>New\<close> establishes and every case of the loop keeps: the bitfield has one bit per
  piece; \<open>sortedPieces\<close> points to every piece; the piece at position \<open>i\<close> carries index \<open>i\<close>;
  no value of a \<open>havingPeers\<close> map is \<^verbatim>\<open>nil\<close> (a message from a peer that is not connected
  panics in \<^verbatim>\<open>updateInterestedState\<close>); \<open>connectedPeers\<close> has each key once, and the struct it
  holds for peer \<open>k\<close> is an allocated one that was made for \<open>k\<close>.
\<close>

definition invariant ::
  "bool list \<Rightarrow> Piece list \<Rightarrow> nat list \<Rightarrow> (peer_ref \<times> Peer_ref) list \<Rightarrow> (Peer_ref \<Rightarrow> Peer)
     \<Rightarrow> Peer_ref \<Rightarrow> bool" where
  "invariant bf ps sp cp h np \<longleftrightarrow>
     length bf = length ps
     \<and> set sp = {..<length ps}
     \<and> (\<forall>i<length ps. Index (ps ! i) = i \<and> (\<forall>(k, pe)\<in>set (havingPeers (ps ! i)). pe \<noteq> None))
     \<and> distinct (map fst cp)
     \<and> (\<forall>(k, a)\<in>set cp. Peer (h a) = k \<and> a < np)"

definition wellformed :: "Downloader \<Rightarrow> bool" where
  "wellformed d =
     invariant (bitfield d) (pieces d) (sortedPieces d) (connectedPeers d) (heap d) (nextPeer d)"

fun stateOf :: "Downloader control \<Rightarrow> Downloader" where
  "stateOf (Continue d) = d"
| "stateOf (Return d) = d"

section \<open>Example states\<close>

text \<open>A hash check that accepts one payload only.\<close>

definition exVerify :: "nat \<Rightarrow> 8 word list \<Rightarrow> bool" where
  "exVerify i buf = (buf = [1, 2, 3])"

text \<open>
  The state after peer 7 connected, announced piece 0 and unchoked us, and the download of
  piece 0 from peer 7 was started.
\<close>

definition dlState :: Downloader where
  "dlState = \<lparr>bitfield = [False],
     pieces = [\<lparr>Index = 0, havingPeers = [(7, Some 0)], allowedFastPeers = [],
                requestedPeers = [(7, \<lparr>pdPiece = 0, pdPeer = 7\<rparr>)], writing = False\<rparr>],
     sortedPieces = [0],
     connectedPeers = [(7, 0)], downloads = [(7, \<lparr>pdPiece = 0, pdPeer = 7\<rparr>)],
     optimisticUnchokedPeer = None,
     heap = (\<lambda>_. zeroPeer)
       (0 := \<lparr>Peer = 7, amInterested = True, amChoking = False, peerChoking = False,
              optimisticUnhoked = False, bytesDownlaodedInChokePeriod = 0\<rparr>),
     nextPeer = 1,
     effects = [SendUnchoke 7, Signal 1, SendInterested 7, Signal 1,
                StartDownloader \<lparr>pdPiece = 0, pdPeer = 7\<rparr>]\<rparr>"

text \<open>
  Piece 0 was complete at the start. Peers 7 and 8 connected; peer 7 announced pieces 1 and
  0, peer 8 piece 0; peer 7 unchoked us; piece 1 was downloaded from peer 7, passed the hash
  check and is being written.
\<close>

definition writingState :: Downloader where
  "writingState = \<lparr>bitfield = [True, False],
     pieces = [\<lparr>Index = 0, havingPeers = [(8, Some 1), (7, Some 0)], allowedFastPeers = [],
                requestedPeers = [], writing = False\<rparr>,
               \<lparr>Index = 1, havingPeers = [(7, Some 0)], allowedFastPeers = [],
                requestedPeers = [], writing = True\<rparr>],
     sortedPieces = [1, 0],
     connectedPeers = [(7, 0), (8, 1)], downloads = [], optimisticUnchokedPeer = None,
     heap = (\<lambda>_. zeroPeer)
       (0 := \<lparr>Peer = 7, amInterested = True, amChoking = False, peerChoking = False,
              optimisticUnhoked = False, bytesDownlaodedInChokePeriod = 0\<rparr>,
        1 := \<lparr>Peer = 8, amInterested = False, amChoking = False, peerChoking = True,
              optimisticUnhoked = False, bytesDownlaodedInChokePeriod = 0\<rparr>),
     nextPeer = 2,
     effects = [SendUnchoke 7, SendUnchoke 8, Signal 1, SendInterested 7, Signal 1, Signal 1,
                Signal 1, StartDownloader \<lparr>pdPiece = 1, pdPeer = 7\<rparr>, Signal 1,
                WriteRequest 1 [1, 2, 3]]\<rparr>"

text \<open>
  Peers 7 and 8 both have piece 0; peer 7 unchoked us, peer 8 chokes us and allowed piece 0
  fast.
\<close>

definition fastState :: Downloader where
  "fastState = \<lparr>bitfield = [False],
     pieces = [\<lparr>Index = 0, havingPeers = [(7, Some 0), (8, Some 1)],
                allowedFastPeers = [(8, Some 1)], requestedPeers = [], writing = False\<rparr>],
     sortedPieces = [0],
     connectedPeers = [(7, 0), (8, 1)], downloads = [], optimisticUnchokedPeer = None,
     heap = (\<lambda>_. zeroPeer)
       (0 := \<lparr>Peer = 7, amInterested = True, amChoking = False, peerChoking = False,
              optimisticUnhoked = False, bytesDownlaodedInChokePeriod = 0\<rparr>,
        1 := \<lparr>Peer = 8, amInterested = True, amChoking = False, peerChoking = True,
              optimisticUnhoked = False, bytesDownlaodedInChokePeriod = 0\<rparr>),
     nextPeer = 2,
     effects = [SendUnchoke 7, SendUnchoke 8, Signal 1, SendInterested 7, Signal 1,
                SendInterested 8, Signal 1]\<rparr>"

text \<open>
  Peer 7 has piece 0, peer 8 has piece 1, both unchoked us; an earlier run of the selector,
  when only piece 0 had a peer, left piece 1 in front of piece 0 in \<open>sortedPieces\<close>.
\<close>

definition tieState :: Downloader where
  "tieState = \<lparr>bitfield = [False, False],
     pieces = [\<lparr>Index = 0, havingPeers = [(7, Some 0)], allowedFastPeers = [],
                requestedPeers = [], writing = False\<rparr>,
               \<lparr>Index = 1, havingPeers = [(8, Some 1)], allowedFastPeers = [],
                requestedPeers = [], writing = False\<rparr>],
     sortedPieces = [1, 0],
     connectedPeers = [(7, 0), (8, 1)], downloads = [], optimisticUnchokedPeer = None,
     heap = (\<lambda>_. zeroPeer)
       (0 := \<lparr>Peer = 7, amInterested = True, amChoking = False, peerChoking = False,
              optimisticUnhoked = False, bytesDownlaodedInChokePeriod = 0\<rparr>,
        1 := \<lparr>Peer = 8, amInterested = True, amChoking = False, peerChoking = False,
              optimisticUnhoked = False, bytesDownlaodedInChokePeriod = 0\<rparr>),
     nextPeer = 2,
     effects = [SendUnchoke 7, SendUnchoke 8, Signal 1, SendInterested 7, Block, Signal 1,
                SendInterested 8, Signal 1, Signal 1]\<rparr>"

text \<open>
  Peer 7 has piece 0 and chokes us; peers 8 and 9 have piece 1 and unchoked us.
\<close>

definition chokedState :: Downloader where
  "chokedState = \<lparr>bitfield = [False, False],
     pieces = [\<lparr>Index = 0, havingPeers = [(7, Some 0)], allowedFastPeers = [],
                requestedPeers = [], writing = False\<rparr>,
               \<lparr>Index = 1, havingPeers = [(8, Some 1), (9, Some 2)], allowedFastPeers = [],
                requestedPeers = [], writing = False\<rparr>],
     sortedPieces = [0, 1],
     connectedPeers = [(7, 0), (8, 1), (9, 2)], downloads = [], optimisticUnchokedPeer = None,
     heap = (\<lambda>_. zeroPeer)
       (0 := \<lparr>Peer = 7, amInterested = True, amChoking = False, peerChoking = True,
              optimisticUnhoked = False, bytesDownlaodedInChokePeriod = 0\<rparr>,
        1 := \<lparr>Peer = 8, amInterested = True, amChoking = False, peerChoking = False,
              optimisticUnhoked = False, bytesDownlaodedInChokePeriod = 0\<rparr>,
        2 := \<lparr>Peer = 9, amInterested = True, amChoking = False, peerChoking = False,
              optimisticUnhoked = False, bytesDownlaodedInChokePeriod = 0\<rparr>),
     nextPeer = 3,
     effects = [SendUnchoke 7, SendUnchoke 8, SendUnchoke 9, Signal 1, SendInterested 7,
                Signal 1, SendInterested 8, Signal 1, SendInterested 9, Signal 1, Signal 1]\<rparr>"

text \<open>Peer 7 connected, and was unchoked on connect.\<close>

definition oneState :: Downloader where
  "oneState = \<lparr>bitfield = [False],
     pieces = [\<lparr>Index = 0, havingPeers = [], allowedFastPeers = [], requestedPeers = [],
                writing = False\<rparr>],
     sortedPieces = [0],
     connectedPeers = [(7, 0)], downloads = [], optimisticUnchokedPeer = None,
     heap = (\<lambda>_. zeroPeer)
       (0 := \<lparr>Peer = 7, amInterested = False, amChoking = False, peerChoking = True,
              optimisticUnhoked = False, bytesDownlaodedInChokePeriod = 0\<rparr>),
     nextPeer = 1,
     effects = [SendUnchoke 7]\<rparr>"

text \<open>
  Five peers connected, the first four were unchoked on connect, and the optimistic tick
  picked the fifth (struct at address 4).
\<close>

definition optState :: Downloader where
  "optState = \<lparr>bitfield = [False],
     pieces = [\<lparr>Index = 0, havingPeers = [], allowedFastPeers = [], requestedPeers = [],
                writing = False\<rparr>],
     sortedPieces = [0],
     connectedPeers = [(1, 0), (2, 1), (3, 2), (4, 3), (5, 4)], downloads = [],
     optimisticUnchokedPeer = Some 4,
     heap = (\<lambda>_. zeroPeer)
       (0 := \<lparr>Peer = 1, amInterested = False, amChoking = False, peerChoking = True,
              optimisticUnhoked = False, bytesDownlaodedInChokePeriod = 0\<rparr>,
        1 := \<lparr>Peer = 2, amInterested = False, amChoking = False, peerChoking = True,
              optimisticUnhoked = False, bytesDownlaodedInChokePeriod = 0\<rparr>,
        2 := \<lparr>Peer = 3, amInterested = False, amChoking = False, peerChoking = True,
              optimisticUnhoked = False, bytesDownlaodedInChokePeriod = 0\<rparr>,
        3 := \<lparr>Peer = 4, amInterested = False, amChoking = False, peerChoking = True,
              optimisticUnhoked = False, bytesDownlaodedInChokePeriod = 0\<rparr>,
        4 := \<lparr>Peer = 5, amInterested = False, amChoking = False, peerChoking = True,
              optimisticUnhoked = True, bytesDownlaodedInChokePeriod = 0\<rparr>),
     nextPeer = 5,
     effects = [SendUnchoke 1, SendUnchoke 2, SendUnchoke 3, SendUnchoke 4, SendUnchoke 5]\<rparr>"

section \<open>Properties\<close>

subsection \<open>Maps and the event loop on concrete events\<close>

text \<open>
  The defining equations that evaluate the cases of the loop on concrete events, and the
  event sequences that lead from \<^verbatim>\<open>New\<close> to the example states.
\<close>

lemma has_iff: "has k m \<longleftrightarrow> k \<in> fst ` set m"
  by (simp add: has_def map_of_eq_None_iff)

lemma has_delete: "has k (AList.delete k' m) \<longleftrightarrow> k \<noteq> k' \<and> has k m"
  by (simp add: has_def delete_conv')


lemma count_list_distinct:
  "distinct xs \<Longrightarrow> count_list xs x = (if x \<in> set xs then 1 else 0)"
  by (induction xs) auto

lemmas Run_defs =
  continue_def Run_downloadersWait_def Run_downloadDone_def Run_writeResponses_def Run_Have_def
  Run_Bitfield_def Run_HaveAll_def Run_AllowedFast_def Run_Unchoke_def Run_Choke_def
  Run_Piece_def Run_Request_def Run_unchokeTimer_def resetStep_def chokeStep_def
  Run_optimisticUnchokeTimer_def
  Run_Connect_def Run_Disconnect_def nextDownload_def ByAvailability_def ByDownloadRate_def
  updateInterestedState_def chokePeer_def unchokePeer_def Intn_def New_def Test_def Set_def
  has_def Let_def

lemma dlState_reached:
  "Run V [Connect 7, Have 7 0, Unchoke 7, DownloadersWait] (New 1 [False]) = Inr (Continue dlState)"
  by (simp add: Run_defs dlState_def)

lemma writingState_reached:
  "Run exVerify
     [Connect 7, Connect 8, Have 7 1, Have 8 0, Have 7 0, Unchoke 7, DownloadersWait,
      DownloadDone \<lparr>pdPiece = 1, pdPeer = 7\<rparr> (DoneC [1, 2, 3] True)]
     (New 2 [True, False])
   = Inr (Continue writingState)"
  by (simp add: Run_defs writingState_def exVerify_def fun_eq_iff eval_nat_numeral)

lemma oneState_reached: "Run V [Connect 7] (New 1 [False]) = Inr (Continue oneState)"
  by (simp add: Run_defs oneState_def fun_eq_iff)

lemma optState_reached:
  "Run V [Connect 1, Connect 2, Connect 3, Connect 4, Connect 5, OptimisticUnchokeTimer rnd]
     (New 1 [False]) = Inr (Continue optState)"
  by (simp add: Run_defs optState_def fun_eq_iff)

lemma fastState_reached:
  "Run V [Connect 7, Connect 8, Have 7 0, Have 8 0, AllowedFast 8 0, Unchoke 7] (New 1 [False])
     = Inr (Continue fastState)"
  by (simp add: Run_defs fastState_def fun_eq_iff)

lemma tieState_reached:
  "Run V [Connect 7, Connect 8, Have 7 0, DownloadersWait, Have 8 1, Unchoke 7, Unchoke 8]
       (New 2 [False, False])
     = Inr (Continue tieState)"
  by (simp add: Run_defs tieState_def fun_eq_iff eval_nat_numeral)

lemma chokedState_reached:
  "Run V [Connect 7, Connect 8, Connect 9, Have 7 0, Have 8 1, Have 9 1, Unchoke 8, Unchoke 9]
       (New 2 [False, False])
     = Inr (Continue chokedState)"
  by (simp add: Run_defs chokedState_def fun_eq_iff eval_nat_numeral)

subsection \<open>Interest update\<close>

lemma interestedLoop_Some:
  assumes "\<forall>i\<in>set xs. i < length (pieces d)"
  shows "interestedLoop d (Some a) xs =
           Inr (\<exists>i\<in>set xs. \<not> Test (bitfield d) i \<and> has (Peer (heap d a)) (havingPeers (pieces d ! i)))"
  using assms by (induction xs) auto

lemma interestedLoop_all:
  assumes "length (bitfield d) = length (pieces d)"
  shows "interestedLoop d (Some a) [0..<length (bitfield d)] = Inr (interestedIn d (Peer (heap d a)))"
proof -
  have "\<forall>i\<in>set [0..<length (bitfield d)]. i < length (pieces d)"
    using assms by simp
  then show ?thesis
    using assms by (simp add: interestedLoop_Some interestedIn_def Bex_def conj_commute conj_left_commute)
qed

lemma updateInterestedState_Some:
  assumes "length (bitfield d) = length (pieces d)"
  shows "updateInterestedState (Some a) d =
           Inr (if amInterested (heap d a) = interestedIn d (Peer (heap d a)) then d
                else d\<lparr>heap := (heap d)(a := (heap d a)\<lparr>amInterested := interestedIn d (Peer (heap d a))\<rparr>),
                       effects := effects d @
                         [if interestedIn d (Peer (heap d a)) then SendInterested (Peer (heap d a))
                          else SendNotInterested (Peer (heap d a))]\<rparr>)"
proof -
  have *: "interestedLoop d (Some a) [0..<length (bitfield d)] = Inr (interestedIn d (Peer (heap d a)))"
    by (rule interestedLoop_all [OF assms])
  show ?thesis unfolding updateInterestedState_def * by auto
qed

text \<open>
  C8. For the peer \<open>q\<close> whose struct is at \<open>a\<close>, \<^verbatim>\<open>updateInterestedState\<close> returns without a
  panic (the bitfield has one bit per piece); afterwards the flag \<open>amInterested\<close> of \<open>q\<close>
  equals the predicate "some piece \<open>i\<close> has its bit unset and \<open>q\<close> among its \<open>havingPeers\<close>";
  \<^verbatim>\<open>Interested\<close> (resp. \<^verbatim>\<open>NotInterested\<close>) is sent exactly when the computed value differs
  from the stored flag, and nothing is sent otherwise; the bitfield, the pieces and every
  other peer are left as they were.
\<close>

theorem updateInterestedState_flag:
  assumes "length (bitfield d) = length (pieces d)"
  shows "\<exists>d'. updateInterestedState (Some a) d = Inr d'
           \<and> amInterested (heap d' a) =
               (\<exists>i<length (pieces d). \<not> Test (bitfield d) i
                    \<and> has (Peer (heap d a)) (havingPeers (pieces d ! i)))
           \<and> effects d' = effects d @
               (if interestedIn d (Peer (heap d a)) = amInterested (heap d a) then []
                else if interestedIn d (Peer (heap d a)) then [SendInterested (Peer (heap d a))]
                else [SendNotInterested (Peer (heap d a))])
           \<and> bitfield d' = bitfield d \<and> pieces d' = pieces d
           \<and> Peer (heap d' a) = Peer (heap d a)
           \<and> (\<forall>b. b \<noteq> a \<longrightarrow> heap d' b = heap d b)"
  unfolding updateInterestedState_Some [OF assms]
  by (auto simp add: interestedIn_def)

text \<open>
  In the middle of a successful write response for piece 1 on \<open>writingState\<close> every bit is
  set, and peer 7 gets \<^verbatim>\<open>NotInterested\<close>; peer 8 has nothing that we lack and its flag is
  unset, so nothing is sent to it.
\<close>

theorem updateInterestedState_flag_witness:
  "length (bitfield (writingState\<lparr>bitfield := [True, True]\<rparr>))
     = length (pieces (writingState\<lparr>bitfield := [True, True]\<rparr>))
   \<and> (\<exists>d'. updateInterestedState (Some 0) (writingState\<lparr>bitfield := [True, True]\<rparr>) = Inr d'
         \<and> \<not> amInterested (heap d' 0)
         \<and> effects d' = effects writingState @ [SendNotInterested 7])
   \<and> length (bitfield writingState) = length (pieces writingState)
   \<and> (\<exists>d'. updateInterestedState (Some 1) writingState = Inr d'
         \<and> \<not> amInterested (heap d' 1) \<and> effects d' = effects writingState)"
proof -
  let ?w = "writingState\<lparr>bitfield := [True, True]\<rparr>"
  have l1: "length (bitfield ?w) = length (pieces ?w)" by (simp add: writingState_def)
  have l2: "length (bitfield writingState) = length (pieces writingState)"
    by (simp add: writingState_def)
  have i7: "\<not> interestedIn ?w 7"
    by (auto simp add: interestedIn_def writingState_def Test_def less_Suc_eq)
  have i8: "\<not> interestedIn writingState 8"
    by (auto simp add: interestedIn_def writingState_def Test_def has_def less_Suc_eq)
  have p: "Peer (heap ?w 0) = 7" "amInterested (heap ?w 0)" "effects ?w = effects writingState"
    "Peer (heap writingState 1) = 8" "\<not> amInterested (heap writingState 1)"
    by (simp_all add: writingState_def)
  from updateInterestedState_flag [OF l1, of 0] i7 p
  have a: "\<exists>d'. updateInterestedState (Some 0) ?w = Inr d'
         \<and> \<not> amInterested (heap d' 0) \<and> effects d' = effects writingState @ [SendNotInterested 7]"
    unfolding interestedIn_def [symmetric] by auto
  from updateInterestedState_flag [OF l2, of 1] i8 p
  have b: "\<exists>d'. updateInterestedState (Some 1) writingState = Inr d'
         \<and> \<not> amInterested (heap d' 1) \<and> effects d' = effects writingState"
    unfolding interestedIn_def [symmetric] by auto
  show ?thesis using l1 l2 a b by blast
qed

subsection \<open>Write responses\<close>

lemma haveLoop_props:
  assumes "length (bitfield d) = length (pieces d)"
  shows "\<exists>d' rest. haveLoop idx xs d = Inr d'
           \<and> bitfield d' = bitfield d \<and> pieces d' = pieces d
           \<and> connectedPeers d' = connectedPeers d
           \<and> sortedPieces d' = sortedPieces d \<and> downloads d' = downloads d
           \<and> optimisticUnchokedPeer d' = optimisticUnchokedPeer d \<and> nextPeer d' = nextPeer d
           \<and> (\<forall>a. Peer (heap d' a) = Peer (heap d a))
           \<and> (\<forall>a. a \<in> snd ` set xs \<longrightarrow> amInterested (heap d' a) = interestedIn d (Peer (heap d a)))
           \<and> (\<forall>a. a \<notin> snd ` set xs \<longrightarrow> heap d' a = heap d a)
           \<and> effects d' = effects d @ rest
           \<and> (\<forall>k j. count_list rest (SendHave k j) =
                  (if j = idx then count_list (map (\<lambda>(k, a). Peer (heap d a)) xs) k else 0))
           \<and> CheckCompletion \<notin> set rest \<and> (\<forall>e. ErrC e \<notin> set rest)"
  using assms
proof (induction xs arbitrary: d)
  case Nil
  then show ?case by simp
next
  case (Cons x xs)
  obtain k pe where x: "x = (k, pe)" by (cases x)
  let ?d0 = "d\<lparr>effects := effects d @ [SendHave (Peer (heap d pe)) idx]\<rparr>"
  have len0: "length (bitfield ?d0) = length (pieces ?d0)" using Cons.prems by simp
  define d1 where "d1 = (if amInterested (heap ?d0 pe) = interestedIn ?d0 (Peer (heap ?d0 pe)) then ?d0
                else ?d0\<lparr>heap := (heap ?d0)(pe := (heap ?d0 pe)\<lparr>amInterested := interestedIn ?d0 (Peer (heap ?d0 pe))\<rparr>),
                       effects := effects ?d0 @
                         [if interestedIn ?d0 (Peer (heap ?d0 pe)) then SendInterested (Peer (heap ?d0 pe))
                          else SendNotInterested (Peer (heap ?d0 pe))]\<rparr>)"
  have u: "updateInterestedState (Some pe) ?d0 = Inr d1"
    unfolding d1_def by (rule updateInterestedState_Some [OF len0])
  have int0: "\<And>k. interestedIn ?d0 k = interestedIn d k" by (simp add: interestedIn_def)
  have d1_bf: "bitfield d1 = bitfield d" and d1_ps: "pieces d1 = pieces d"
    and d1_cp: "connectedPeers d1 = connectedPeers d"
    and d1_sp: "sortedPieces d1 = sortedPieces d" and d1_dl: "downloads d1 = downloads d"
    and d1_op: "optimisticUnchokedPeer d1 = optimisticUnchokedPeer d" and d1_np: "nextPeer d1 = nextPeer d"
    by (simp_all add: d1_def)
  have d1_peer: "\<And>a. Peer (heap d1 a) = Peer (heap d a)" by (simp add: d1_def)
  have d1_pe: "amInterested (heap d1 pe) = interestedIn d (Peer (heap d pe))"
    by (simp add: d1_def int0)
  have d1_other: "\<And>a. a \<noteq> pe \<Longrightarrow> heap d1 a = heap d a" by (simp add: d1_def)
  obtain r1 where r1: "effects d1 = effects d @ SendHave (Peer (heap d pe)) idx # r1"
    and r1_no: "\<forall>k j. SendHave k j \<notin> set r1" "CheckCompletion \<notin> set r1" "\<forall>e. ErrC e \<notin> set r1"
    by (cases "amInterested (heap ?d0 pe) = interestedIn ?d0 (Peer (heap ?d0 pe))")
       (auto simp add: d1_def)
  have int1: "\<And>k. interestedIn d1 k = interestedIn d k"
    by (simp add: interestedIn_def d1_bf d1_ps)
  have len1: "length (bitfield d1) = length (pieces d1)"
    using Cons.prems by (simp add: d1_bf d1_ps)
  from Cons.IH [OF len1] obtain d' rest where
    h: "haveLoop idx xs d1 = Inr d'" "bitfield d' = bitfield d1" "pieces d' = pieces d1"
      "connectedPeers d' = connectedPeers d1" "sortedPieces d' = sortedPieces d1"
      "downloads d' = downloads d1" "optimisticUnchokedPeer d' = optimisticUnchokedPeer d1"
      "nextPeer d' = nextPeer d1"
      "\<forall>a. Peer (heap d' a) = Peer (heap d1 a)"
      "\<forall>a. a \<in> snd ` set xs \<longrightarrow> amInterested (heap d' a) = interestedIn d1 (Peer (heap d1 a))"
      "\<forall>a. a \<notin> snd ` set xs \<longrightarrow> heap d' a = heap d1 a"
      "effects d' = effects d1 @ rest"
      "\<forall>k j. count_list rest (SendHave k j) =
                  (if j = idx then count_list (map (\<lambda>(k, a). Peer (heap d1 a)) xs) k else 0)"
      "CheckCompletion \<notin> set rest" "\<forall>e. ErrC e \<notin> set rest"
    by blast
  have loop: "haveLoop idx (x # xs) d = Inr d'"
    by (simp add: x u h(1))
  have am: "\<forall>a. a \<in> snd ` set (x # xs) \<longrightarrow> amInterested (heap d' a) = interestedIn d (Peer (heap d a))"
  proof (intro allI impI)
    fix a assume a: "a \<in> snd ` set (x # xs)"
    show "amInterested (heap d' a) = interestedIn d (Peer (heap d a))"
    proof (cases "a \<in> snd ` set xs")
      case True
      then show ?thesis using h(10) by (simp add: int1 d1_peer)
    next
      case False
      then have "a = pe" using a x by auto
      then show ?thesis using False h(11) d1_pe by simp
    qed
  qed
  have other: "\<forall>a. a \<notin> snd ` set (x # xs) \<longrightarrow> heap d' a = heap d a"
    using h(11) d1_other x by auto
  have eff: "effects d' = effects d @ (SendHave (Peer (heap d pe)) idx # r1 @ rest)"
    by (simp add: h(12) r1)
  have mapeq: "map (\<lambda>(k, a). Peer (heap d1 a)) xs = map (\<lambda>(k, a). Peer (heap d a)) xs"
    by (simp add: d1_peer)
  have r1_count: "\<And>k j. count_list r1 (SendHave k j) = 0"
    using r1_no(1) by (simp add: count_list_0_iff)
  have cnt: "\<forall>k j. count_list (SendHave (Peer (heap d pe)) idx # r1 @ rest) (SendHave k j) =
                  (if j = idx then count_list (map (\<lambda>(k, a). Peer (heap d a)) (x # xs)) k else 0)"
    using h(13) by (auto simp add: x mapeq r1_count)
  have no: "CheckCompletion \<notin> set (SendHave (Peer (heap d pe)) idx # r1 @ rest)"
       "\<forall>e. ErrC e \<notin> set (SendHave (Peer (heap d pe)) idx # r1 @ rest)"
    using r1_no h(14,15) by auto
  show ?case
    using loop am other eff cnt no h(2-9) d1_bf d1_ps d1_cp d1_sp d1_dl d1_op d1_np d1_peer
    by (intro exI [of _ d'] exI [of _ "SendHave (Peer (heap d pe)) idx # r1 @ rest"]) simp
qed

text \<open>
  C10. A write response that carries an error clears the \<open>writing\<close> flag of its piece and
  sends the error on the error channel, and does nothing else: the bitfield is unchanged
  (no bit set), the only new effect is the error (no completion check, no \<^verbatim>\<open>Have\<close>, no
  \<^verbatim>\<open>Interested\<close> or \<^verbatim>\<open>NotInterested\<close>), and no peer struct changes.
\<close>

theorem writeResponse_error:
  assumes "idx < length (pieces d)"
  shows "\<exists>d'. Run_writeResponses idx (Some e) d = Inr d'
           \<and> \<not> writing (pieces d' ! idx)
           \<and> effects d' = effects d @ [ErrC e]
           \<and> bitfield d' = bitfield d
           \<and> heap d' = heap d
           \<and> connectedPeers d' = connectedPeers d
           \<and> pieces d' = (pieces d)[idx := (pieces d ! idx)\<lparr>writing := False\<rparr>]"
  using assms by (simp add: Run_writeResponses_def)

theorem writeResponse_error_witness:
  "(1::nat) < length (pieces writingState)
   \<and> writing (pieces writingState ! 1)
   \<and> (\<exists>d'. Run_writeResponses 1 (Some ''disk full'') writingState = Inr d'
         \<and> \<not> writing (pieces d' ! 1)
         \<and> effects d' = effects writingState @ [ErrC ''disk full'']
         \<and> bitfield d' = [True, False] \<and> heap d' = heap writingState)"
proof -
  have h: "(1::nat) < length (pieces writingState)" by (simp add: writingState_def)
  have e: "bitfield writingState = [True, False]" "writing (pieces writingState ! 1)"
    by (simp_all add: writingState_def)
  from writeResponse_error [OF h, of "''disk full''"] e
  show ?thesis using h by auto
qed

text \<open>
  C7. A successful write response for piece \<open>idx\<close>, within the handling of that one event:
  sets bit \<open>idx\<close> of the bitfield, then checks completion, then sends exactly one
  \<^verbatim>\<open>Have(idx)\<close> to every connected peer (and no other \<^verbatim>\<open>Have\<close>), and re-evaluates the
  interest of every connected peer, so that afterwards each connected peer's
  \<open>amInterested\<close> equals the interest predicate in the new state. The hypotheses are the
  invariants of the state: the piece exists, the bitfield has one bit per piece, the struct
  stored for peer \<open>k\<close> in \<open>connectedPeers\<close> is the one made for \<open>k\<close>, and a map has each key once.
\<close>

theorem writeResponse_success:
  assumes idx: "idx < length (pieces d)"
    and len: "length (bitfield d) = length (pieces d)"
    and own: "\<forall>(k, a)\<in>set (connectedPeers d). Peer (heap d a) = k"
    and dist: "distinct (map fst (connectedPeers d))"
  shows "\<exists>d' rest. Run_writeResponses idx None d = Inr d'
           \<and> bitfield d' = Set (bitfield d) idx \<and> Test (bitfield d') idx
           \<and> effects d' = effects d @ CheckCompletion # rest
           \<and> (\<forall>k j. count_list rest (SendHave k j) =
                  (if j = idx \<and> has k (connectedPeers d) then 1 else 0))
           \<and> CheckCompletion \<notin> set rest
           \<and> connectedPeers d' = connectedPeers d
           \<and> (\<forall>(k, a)\<in>set (connectedPeers d'). amInterested (heap d' a) = interestedIn d' k)
           \<and> pieces d' = (pieces d)[idx := (pieces d ! idx)\<lparr>writing := False\<rparr>]"
proof -
  let ?d1 = "d\<lparr>pieces := (pieces d)[idx := (pieces d ! idx)\<lparr>writing := False\<rparr>]\<rparr>"
  let ?d2 = "?d1\<lparr>bitfield := Set (bitfield ?d1) idx, effects := effects ?d1 @ [CheckCompletion]\<rparr>"
  have len2: "length (bitfield ?d2) = length (pieces ?d2)"
    using len by (simp add: Set_def)
  from haveLoop_props [OF len2, of idx "connectedPeers d"] obtain d' rest where
    h: "haveLoop idx (connectedPeers d) ?d2 = Inr d'"
      "bitfield d' = bitfield ?d2" "pieces d' = pieces ?d2"
      "connectedPeers d' = connectedPeers ?d2"
      "\<forall>a. a \<in> snd ` set (connectedPeers d) \<longrightarrow>
           amInterested (heap d' a) = interestedIn ?d2 (Peer (heap ?d2 a))"
      "effects d' = effects ?d2 @ rest"
      "\<forall>k j. count_list rest (SendHave k j) =
           (if j = idx then count_list (map (\<lambda>(k, a). Peer (heap ?d2 a)) (connectedPeers d)) k else 0)"
      "CheckCompletion \<notin> set rest"
    by blast
  have run: "Run_writeResponses idx None d = Inr d'"
    using idx h(1) by (simp add: Run_writeResponses_def)
  have bf: "bitfield d' = Set (bitfield d) idx" using h(2) by simp
  have tst: "Test (bitfield d') idx"
    using idx len by (simp add: bf Set_def Test_def)
  have eff: "effects d' = effects d @ CheckCompletion # rest" using h(6) by simp
  have mp: "map (\<lambda>(k, a). Peer (heap ?d2 a)) (connectedPeers d) = map fst (connectedPeers d)"
    using own by (auto simp add: case_prod_unfold)
  have cnt: "\<forall>k j. count_list rest (SendHave k j) =
                  (if j = idx \<and> has k (connectedPeers d) then 1 else 0)"
    using h(7) unfolding mp by (simp add: count_list_distinct [OF dist] has_iff)
  have cp: "connectedPeers d' = connectedPeers d" using h(4) by simp
  have int: "\<And>k. interestedIn d' k = interestedIn ?d2 k"
    by (simp add: interestedIn_def h(2) h(3))
  have am: "\<forall>(k, a)\<in>set (connectedPeers d'). amInterested (heap d' a) = interestedIn d' k"
  proof (clarify)
    fix k a assume ka: "(k, a) \<in> set (connectedPeers d')"
    then have in_d: "(k, a) \<in> set (connectedPeers d)" by (simp add: cp)
    then have "a \<in> snd ` set (connectedPeers d)" by force
    then have "amInterested (heap d' a) = interestedIn ?d2 (Peer (heap ?d2 a))"
      using h(5) by blast
    moreover have "Peer (heap ?d2 a) = k" using own in_d by auto
    ultimately show "amInterested (heap d' a) = interestedIn d' k" by (simp add: int)
  qed
  have wr: "pieces d' = (pieces d)[idx := (pieces d ! idx)\<lparr>writing := False\<rparr>]"
    by (simp add: h(3))
  show ?thesis
    using run bf tst eff cnt h(8) cp am wr by blast
qed

theorem writeResponse_success_witness:
  "(1::nat) < length (pieces writingState)
   \<and> length (bitfield writingState) = length (pieces writingState)
   \<and> distinct (map fst (connectedPeers writingState))
   \<and> (\<exists>d' rest. Run_writeResponses 1 None writingState = Inr d'
         \<and> bitfield d' = [True, True]
         \<and> effects d' = effects writingState @ CheckCompletion # rest
         \<and> count_list rest (SendHave 7 1) = 1 \<and> count_list rest (SendHave 8 1) = 1
         \<and> count_list rest (SendHave 9 1) = 0
         \<and> \<not> amInterested (heap d' 0) \<and> \<not> amInterested (heap d' 1)
         \<and> \<not> writing (pieces d' ! 1))"
proof -
  have h1: "(1::nat) < length (pieces writingState)" by (simp add: writingState_def)
  have h2: "length (bitfield writingState) = length (pieces writingState)"
    by (simp add: writingState_def)
  have h3: "\<forall>(k, a)\<in>set (connectedPeers writingState). Peer (heap writingState a) = k"
    by (simp add: writingState_def)
  have h4: "distinct (map fst (connectedPeers writingState))" by (simp add: writingState_def)
  from writeResponse_success [OF h1 h2 h3 h4] obtain d' rest where
    r: "Run_writeResponses 1 None writingState = Inr d'"
      "bitfield d' = Set (bitfield writingState) 1"
      "effects d' = effects writingState @ CheckCompletion # rest"
      "\<forall>k j. count_list rest (SendHave k j) =
           (if j = 1 \<and> has k (connectedPeers writingState) then 1 else 0)"
      "connectedPeers d' = connectedPeers writingState"
      "\<forall>(k, a)\<in>set (connectedPeers d'). amInterested (heap d' a) = interestedIn d' k"
      "pieces d' = (pieces writingState)[1 := (pieces writingState ! 1)\<lparr>writing := False\<rparr>]"
    by blast
  have bf: "bitfield d' = [True, True]" using r(2) by (simp add: writingState_def Set_def)
  have c: "count_list rest (SendHave 7 1) = 1" "count_list rest (SendHave 8 1) = 1"
    "count_list rest (SendHave 9 1) = 0"
    using r(4) by (simp_all add: writingState_def has_def)
  have no: "\<And>k. \<not> interestedIn d' k"
    by (auto simp add: interestedIn_def bf r(7) writingState_def Test_def less_Suc_eq)
  have am: "\<not> amInterested (heap d' 0)" "\<not> amInterested (heap d' 1)"
    using r(6) no by (simp_all add: r(5) writingState_def)
  have wr: "\<not> writing (pieces d' ! 1)" by (simp add: r(7) writingState_def)
  show ?thesis using h1 h2 h4 r(1,3) bf c am wr by blast
qed

subsection \<open>The optimistic unchoke tick\<close>

text \<open>
  C3. The spec: the orchestrator never panics on any event, and an optimistic-unchoke tick
  with an empty candidate set is a no-op. The code: in every state in which each connected
  peer is the optimistic pick or is not choked by us, the candidate list is empty,
  \<^verbatim>\<open>rand.Intn(0)\<close> panics and the tick does not return a state, whatever the random source.
  Such a state is reached by one \<^verbatim>\<open>Connect\<close>: the first peers are unchoked on connect.
\<close>

theorem optimistic_tick_empty_candidates_panics:
  assumes "\<forall>(k, pe)\<in>set (connectedPeers d). optimisticUnhoked (heap d pe) \<or> \<not> amChoking (heap d pe)"
  shows "Run_optimisticUnchokeTimer rnd d = Inl InvalidArgumentToIntn"
proof -
  have "filter (\<lambda>(k, pe). \<not> optimisticUnhoked (heap d pe) \<and> amChoking (heap d pe)) (connectedPeers d) = []"
    using assms by (auto simp add: filter_empty_conv)
  then show ?thesis by (simp add: Run_optimisticUnchokeTimer_def Intn_def Let_def)
qed

theorem optimistic_tick_empty_candidates_panics_witness:
  "Run exVerify [Connect 7] (New 1 [False]) = Inr (Continue oneState)
   \<and> Run_optimisticUnchokeTimer 0 oneState = Inl InvalidArgumentToIntn
   \<and> Run exVerify [Connect 7, OptimisticUnchokeTimer 0] (New 1 [False]) = Inl InvalidArgumentToIntn"
proof -
  have h: "\<forall>(k, pe)\<in>set (connectedPeers oneState).
             optimisticUnhoked (heap oneState pe) \<or> \<not> amChoking (heap oneState pe)"
    by (simp add: oneState_def)
  have p: "Run_optimisticUnchokeTimer 0 oneState = Inl InvalidArgumentToIntn"
    by (rule optimistic_tick_empty_candidates_panics [OF h])
  have c: "Run_select exVerify (Connect 7) (New 1 [False]) = Inr (Continue oneState)"
    using oneState_reached [of exVerify] by (simp split: sum.splits control.splits)
  show ?thesis using oneState_reached [of exVerify] p c by (simp add: continue_def)
qed

subsection \<open>The selector\<close>

lemma allowedFastLoop_None:
  "allowedFastLoop d p xs = Inr None \<Longrightarrow> (k, Some a) \<in> set xs \<Longrightarrow> \<not> fastCandidate d p a"
proof (induction xs)
  case Nil
  then show ?case by simp
next
  case (Cons x xs)
  obtain k' pe where x: "x = (k', pe)" by (cases x)
  from Cons.prems(1) obtain a' where pe: "pe = Some a'"
    by (cases pe) (simp_all add: x)
  from Cons.prems(1) have nf: "\<not> fastCandidate d p a'" and rest: "allowedFastLoop d p xs = Inr None"
    by (simp_all add: x pe fastCandidate_def split: if_splits)
  show ?case
  proof (cases "(k, Some a) = x")
    case True
    then show ?thesis using nf x pe by simp
  next
    case False
    then have "(k, Some a) \<in> set xs" using Cons.prems(2) by simp
    then show ?thesis using Cons.IH rest by blast
  qed
qed

lemma allowedFastLoop_Some:
  "allowedFastLoop d p xs = Inr (Some q) \<Longrightarrow>
     \<exists>k a. (k, Some a) \<in> set xs \<and> Peer (heap d a) = q \<and> fastCandidate d p a"
proof (induction xs)
  case Nil
  then show ?case by simp
next
  case (Cons x xs)
  obtain k' pe where x: "x = (k', pe)" by (cases x)
  from Cons.prems(1) obtain a' where pe: "pe = Some a'"
    by (cases pe) (simp_all add: x)
  show ?case
  proof (cases "fastCandidate d p a'")
    case True
    then have "Peer (heap d a') = q"
      using Cons.prems by (simp add: x pe fastCandidate_def)
    then show ?thesis using True x pe by auto
  next
    case False
    then have "allowedFastLoop d p xs = Inr (Some q)"
      using Cons.prems by (simp add: x pe fastCandidate_def split: if_splits)
    from Cons.IH [OF this] show ?thesis by auto
  qed
qed

lemma allowedFastLoop_total:
  "\<forall>(k, pe)\<in>set xs. pe \<noteq> None \<Longrightarrow> \<exists>r. allowedFastLoop d p xs = Inr r"
  by (induction xs) (auto split: option.splits)

lemma unchokedLoop_None:
  "unchokedLoop d xs = Inr None \<Longrightarrow> (k, Some a) \<in> set xs \<Longrightarrow> \<not> unchokedCandidate d a"
proof (induction xs)
  case Nil
  then show ?case by simp
next
  case (Cons x xs)
  obtain k' pe where x: "x = (k', pe)" by (cases x)
  from Cons.prems(1) obtain a' where pe: "pe = Some a'"
    by (cases pe) (simp_all add: x)
  from Cons.prems(1) have nf: "\<not> unchokedCandidate d a'" and rest: "unchokedLoop d xs = Inr None"
    by (simp_all add: x pe unchokedCandidate_def split: if_splits)
  show ?case
  proof (cases "(k, Some a) = x")
    case True
    then show ?thesis using nf x pe by simp
  next
    case False
    then have "(k, Some a) \<in> set xs" using Cons.prems(2) by simp
    then show ?thesis using Cons.IH rest by blast
  qed
qed

lemma unchokedLoop_Some:
  "unchokedLoop d xs = Inr (Some q) \<Longrightarrow>
     \<exists>k a. (k, Some a) \<in> set xs \<and> Peer (heap d a) = q \<and> unchokedCandidate d a"
proof (induction xs)
  case Nil
  then show ?case by simp
next
  case (Cons x xs)
  obtain k' pe where x: "x = (k', pe)" by (cases x)
  from Cons.prems(1) obtain a' where pe: "pe = Some a'"
    by (cases pe) (simp_all add: x)
  show ?case
  proof (cases "unchokedCandidate d a'")
    case True
    then have "Peer (heap d a') = q"
      using Cons.prems by (simp add: x pe unchokedCandidate_def)
    then show ?thesis using True x pe by auto
  next
    case False
    then have "unchokedLoop d xs = Inr (Some q)"
      using Cons.prems by (simp add: x pe unchokedCandidate_def split: if_splits)
    from Cons.IH [OF this] show ?thesis by auto
  qed
qed

lemma unchokedLoop_total:
  "\<forall>(k, pe)\<in>set xs. pe \<noteq> None \<Longrightarrow> \<exists>r. unchokedLoop d xs = Inr r"
  by (induction xs) (auto split: option.splits)

lemma schedulable_iff:
  "schedulable d p \<longleftrightarrow>
     eligible d p \<and> (\<exists>k a. (k, Some a) \<in> set (havingPeers p)
                          \<and> (fastCandidate d p a \<or> unchokedCandidate d a))"
proof -
  have "(\<exists>a \<in> set (map snd (havingPeers p)).
           case a of None \<Rightarrow> False | Some a \<Rightarrow> fastCandidate d p a \<or> unchokedCandidate d a)
        \<longleftrightarrow> (\<exists>k a. (k, Some a) \<in> set (havingPeers p)
                          \<and> (fastCandidate d p a \<or> unchokedCandidate d a))"
    by (force split: option.splits)
  then show ?thesis by (simp add: schedulable_def)
qed

lemma piecesLoop_Cons:
  "piecesLoop d (x # rest) =
     (if \<not> eligible d (pieces d ! x) then piecesLoop d rest
      else case allowedFastLoop d (pieces d ! x) (havingPeers (pieces d ! x)) of
             Inl e \<Rightarrow> Inl e
           | Inr (Some k) \<Rightarrow> Inr (Some \<lparr>pdPiece = Index (pieces d ! x), pdPeer = k\<rparr>)
           | Inr None \<Rightarrow>
               (case unchokedLoop d (havingPeers (pieces d ! x)) of
                  Inl e \<Rightarrow> Inl e
                | Inr (Some k) \<Rightarrow> Inr (Some \<lparr>pdPiece = Index (pieces d ! x), pdPeer = k\<rparr>)
                | Inr None \<Rightarrow> piecesLoop d rest))"
  by (simp add: eligible_def Let_def)

lemma piecesLoop_Some:
  "piecesLoop d xs = Inr (Some pd) \<Longrightarrow>
     \<exists>ys x zs k a. xs = ys @ x # zs \<and> (\<forall>y\<in>set ys. \<not> schedulable d (pieces d ! y))
       \<and> eligible d (pieces d ! x) \<and> pdPiece pd = Index (pieces d ! x)
       \<and> (k, Some a) \<in> set (havingPeers (pieces d ! x)) \<and> Peer (heap d a) = pdPeer pd
       \<and> (fastCandidate d (pieces d ! x) a
            \<or> (unchokedCandidate d a
                 \<and> (\<forall>k b. (k, Some b) \<in> set (havingPeers (pieces d ! x))
                        \<longrightarrow> \<not> fastCandidate d (pieces d ! x) b)))"
proof (induction xs)
  case Nil
  then show ?case by simp
next
  case (Cons x xs)
  let ?p = "pieces d ! x"
  let ?Q = "\<lambda>xs'. \<exists>ys x zs k a. xs' = ys @ x # zs \<and> (\<forall>y\<in>set ys. \<not> schedulable d (pieces d ! y))
       \<and> eligible d (pieces d ! x) \<and> pdPiece pd = Index (pieces d ! x)
       \<and> (k, Some a) \<in> set (havingPeers (pieces d ! x)) \<and> Peer (heap d a) = pdPeer pd
       \<and> (fastCandidate d (pieces d ! x) a
            \<or> (unchokedCandidate d a
                 \<and> (\<forall>k b. (k, Some b) \<in> set (havingPeers (pieces d ! x))
                        \<longrightarrow> \<not> fastCandidate d (pieces d ! x) b)))"
  have skip: "?Q (x # xs)" if ns: "\<not> schedulable d ?p" and rest: "piecesLoop d xs = Inr (Some pd)"
  proof -
    from Cons.IH [OF rest] obtain ys x' zs k a where
      h: "xs = ys @ x' # zs" "\<forall>y\<in>set ys. \<not> schedulable d (pieces d ! y)"
        "eligible d (pieces d ! x')" "pdPiece pd = Index (pieces d ! x')"
        "(k, Some a) \<in> set (havingPeers (pieces d ! x'))" "Peer (heap d a) = pdPeer pd"
        "fastCandidate d (pieces d ! x') a
            \<or> (unchokedCandidate d a
                 \<and> (\<forall>k b. (k, Some b) \<in> set (havingPeers (pieces d ! x'))
                        \<longrightarrow> \<not> fastCandidate d (pieces d ! x') b))"
      by blast
    have 1: "x # xs = (x # ys) @ x' # zs" using h(1) by simp
    have 2: "\<forall>y\<in>set (x # ys). \<not> schedulable d (pieces d ! y)" using h(2) ns by simp
    show ?thesis using 1 2 h(3-7) by blast
  qed
  show ?case
  proof (cases "eligible d ?p")
    case False
    then have "piecesLoop d xs = Inr (Some pd)"
      using Cons.prems by (simp add: piecesLoop_Cons del: piecesLoop.simps)
    moreover have "\<not> schedulable d ?p" using False by (simp add: schedulable_iff)
    ultimately show ?thesis by (rule skip [rotated])
  next
    case True
    show ?thesis
    proof (cases "allowedFastLoop d ?p (havingPeers ?p)")
      case (Inl e)
      then show ?thesis using Cons.prems True by (simp add: piecesLoop_Cons del: piecesLoop.simps)
    next
      case (Inr r)
      show ?thesis
      proof (cases r)
        case (Some q)
        then have pd: "pd = \<lparr>pdPiece = Index ?p, pdPeer = q\<rparr>"
          using Cons.prems True Inr by (simp add: piecesLoop_Cons del: piecesLoop.simps)
        from allowedFastLoop_Some [of d ?p "havingPeers ?p" q] Inr Some
        obtain k a where ka: "(k, Some a) \<in> set (havingPeers ?p)" "Peer (heap d a) = q"
          "fastCandidate d ?p a" by blast
        have 1: "x # xs = [] @ x # xs" by simp
        have 2: "\<forall>y\<in>set []. \<not> schedulable d (pieces d ! y)" by simp
        have 3: "pdPiece pd = Index ?p" "Peer (heap d a) = pdPeer pd" using pd ka(2) by simp_all
        show ?thesis using 1 2 3 True ka(1,3) by blast
      next
        case None
        note fastNone = None
        show ?thesis
        proof (cases "unchokedLoop d (havingPeers ?p)")
          case (Inl e)
          then show ?thesis using Cons.prems True Inr fastNone by (simp add: piecesLoop_Cons del: piecesLoop.simps)
        next
          case (Inr r')
          note uInr = Inr
          have nofast: "\<forall>k b. (k, Some b) \<in> set (havingPeers ?p) \<longrightarrow> \<not> fastCandidate d ?p b"
            using allowedFastLoop_None [of d ?p "havingPeers ?p"] \<open>allowedFastLoop d ?p (havingPeers ?p) = Inr r\<close> fastNone
            by blast
          show ?thesis
          proof (cases r')
            case (Some q)
            then have pd: "pd = \<lparr>pdPiece = Index ?p, pdPeer = q\<rparr>"
              using Cons.prems True \<open>allowedFastLoop d ?p (havingPeers ?p) = Inr r\<close> fastNone uInr
              by (simp add: piecesLoop_Cons del: piecesLoop.simps)
            from unchokedLoop_Some [of d "havingPeers ?p" q] uInr Some
            obtain k a where ka: "(k, Some a) \<in> set (havingPeers ?p)" "Peer (heap d a) = q"
              "unchokedCandidate d a" by blast
            have 1: "x # xs = [] @ x # xs" by simp
            have 2: "\<forall>y\<in>set []. \<not> schedulable d (pieces d ! y)" by simp
            have 3: "pdPiece pd = Index ?p" "Peer (heap d a) = pdPeer pd" using pd ka(2) by simp_all
            show ?thesis using 1 2 3 True ka(1,3) nofast by blast
          next
            case None
            then have rest: "piecesLoop d xs = Inr (Some pd)"
              using Cons.prems True \<open>allowedFastLoop d ?p (havingPeers ?p) = Inr r\<close> fastNone uInr
              by (simp add: piecesLoop_Cons del: piecesLoop.simps)
            have "\<forall>k b. (k, Some b) \<in> set (havingPeers ?p) \<longrightarrow> \<not> unchokedCandidate d b"
              using unchokedLoop_None [of d "havingPeers ?p"] uInr None by blast
            then have "\<not> schedulable d ?p" using nofast by (auto simp add: schedulable_iff)
            then show ?thesis using rest by (rule skip)
          qed
        qed
      qed
    qed
  qed
qed

lemma piecesLoop_None:
  "piecesLoop d xs = Inr None \<Longrightarrow> x \<in> set xs \<Longrightarrow> \<not> schedulable d (pieces d ! x)"
proof (induction xs)
  case Nil
  then show ?case by simp
next
  case (Cons y xs)
  let ?p = "pieces d ! y"
  have "\<not> schedulable d ?p \<and> piecesLoop d xs = Inr None"
  proof (cases "eligible d ?p")
    case False
    then show ?thesis using Cons.prems(1) by (simp add: piecesLoop_Cons schedulable_iff del: piecesLoop.simps)
  next
    case True
    from Cons.prems(1) True have f: "allowedFastLoop d ?p (havingPeers ?p) = Inr None"
      by (simp add: piecesLoop_Cons del: piecesLoop.simps split: sum.splits option.splits)
    from Cons.prems(1) True f have u: "unchokedLoop d (havingPeers ?p) = Inr None"
      by (simp add: piecesLoop_Cons del: piecesLoop.simps split: sum.splits option.splits)
    from Cons.prems(1) True f u have r: "piecesLoop d xs = Inr None"
      by (simp add: piecesLoop_Cons del: piecesLoop.simps)
    have "\<not> schedulable d ?p"
      using allowedFastLoop_None [OF f] unchokedLoop_None [OF u]
      by (auto simp add: schedulable_iff)
    then show ?thesis using r by simp
  qed
  then show ?case using Cons.IH Cons.prems(2) by auto
qed

lemma piecesLoop_total:
  "\<forall>x\<in>set xs. \<forall>(k, pe)\<in>set (havingPeers (pieces d ! x)). pe \<noteq> None \<Longrightarrow>
     \<exists>r. piecesLoop d xs = Inr r"
proof (induction xs)
  case Nil
  then show ?case by simp
next
  case (Cons x xs)
  let ?p = "pieces d ! x"
  from Cons.prems have nn: "\<forall>(k, pe)\<in>set (havingPeers ?p). pe \<noteq> None" by simp
  from Cons have ih: "\<exists>r. piecesLoop d xs = Inr r" by simp
  from allowedFastLoop_total [OF nn] obtain r1 where r1: "allowedFastLoop d ?p (havingPeers ?p) = Inr r1"
    by blast
  from unchokedLoop_total [OF nn] obtain r2 where r2: "unchokedLoop d (havingPeers ?p) = Inr r2"
    by blast
  show ?case using ih by (auto simp add: piecesLoop_Cons r1 r2 simp del: piecesLoop.simps split: option.splits)
qed

lemma sortedPieces_frame:
  "eligible (d\<lparr>sortedPieces := xs\<rparr>) p = eligible d p"
  "fastCandidate (d\<lparr>sortedPieces := xs\<rparr>) p a = fastCandidate d p a"
  "unchokedCandidate (d\<lparr>sortedPieces := xs\<rparr>) a = unchokedCandidate d a"
  "schedulable (d\<lparr>sortedPieces := xs\<rparr>) p = schedulable d p"
proof -
  show e: "eligible (d\<lparr>sortedPieces := xs\<rparr>) p = eligible d p" by (simp add: eligible_def)
  show f: "\<And>a. fastCandidate (d\<lparr>sortedPieces := xs\<rparr>) p a = fastCandidate d p a"
    by (simp add: fastCandidate_def)
  show u: "\<And>a. unchokedCandidate (d\<lparr>sortedPieces := xs\<rparr>) a = unchokedCandidate d a"
    by (simp add: unchokedCandidate_def)
  show "schedulable (d\<lparr>sortedPieces := xs\<rparr>) p = schedulable d p"
    unfolding schedulable_iff e f u ..
qed

lemma nextDownload_eq:
  "nextDownload d =
     (case piecesLoop (d\<lparr>sortedPieces := sort_key (ByAvailability (pieces d)) (sortedPieces d)\<rparr>)
             (sort_key (ByAvailability (pieces d)) (sortedPieces d)) of
        Inl e \<Rightarrow> Inl e
      | Inr r \<Rightarrow> Inr (r, d\<lparr>sortedPieces := sort_key (ByAvailability (pieces d)) (sortedPieces d)\<rparr>))"
  by (simp add: nextDownload_def Let_def)

text \<open>
  C5. In a state where \<open>sortedPieces\<close> points to every piece and no \<open>havingPeers\<close> entry is
  \<^verbatim>\<open>nil\<close>, \<^verbatim>\<open>nextDownload\<close> returns without a panic. When it returns a downloader, its piece
  is eligible (bit unset, no requested peer, not being written, some peer has it), its peer
  is one of the piece's \<open>havingPeers\<close> and has no active download, and the peer either
  allowed the piece fast (whatever its choke state) or is not choking us while no peer of
  the piece that allowed it fast is free. When it returns \<^verbatim>\<open>nil\<close>, no piece is eligible
  with a surviving candidate peer.
\<close>

theorem nextDownload_candidates:
  assumes ptrs: "set (sortedPieces d) = {..<length (pieces d)}"
    and nonil: "\<forall>p\<in>set (pieces d). \<forall>(k, pe)\<in>set (havingPeers p). pe \<noteq> None"
  shows "\<exists>r d'. nextDownload d = Inr (r, d') \<and>
     (case r of
        None \<Rightarrow> (\<forall>p\<in>set (pieces d). \<not> schedulable d p)
      | Some pd \<Rightarrow>
          (\<exists>p\<in>set (pieces d). \<exists>k a. Index p = pdPiece pd \<and> eligible d p
             \<and> (k, Some a) \<in> set (havingPeers p) \<and> Peer (heap d a) = pdPeer pd
             \<and> \<not> has (pdPeer pd) (downloads d)
             \<and> (has (pdPeer pd) (allowedFastPeers p)
                  \<or> (\<not> peerChoking (heap d a)
                       \<and> (\<forall>k b. (k, Some b) \<in> set (havingPeers p) \<longrightarrow> \<not> fastCandidate d p b)))))"
proof -
  let ?xs = "sort_key (ByAvailability (pieces d)) (sortedPieces d)"
  let ?d' = "d\<lparr>sortedPieces := ?xs\<rparr>"
  have set_xs: "set ?xs = {..<length (pieces d)}" using ptrs by simp
  have "\<forall>x\<in>set ?xs. \<forall>(k, pe)\<in>set (havingPeers (pieces ?d' ! x)). pe \<noteq> None"
  proof
    fix x assume "x \<in> set ?xs"
    then have "x < length (pieces d)" using set_xs by simp
    then have "pieces d ! x \<in> set (pieces d)" by simp
    then show "\<forall>(k, pe)\<in>set (havingPeers (pieces ?d' ! x)). pe \<noteq> None"
      using nonil by simp
  qed
  from piecesLoop_total [OF this] obtain r where r: "piecesLoop ?d' ?xs = Inr r" by blast
  have nd: "nextDownload d = Inr (r, ?d')" by (simp add: nextDownload_eq r)
  show ?thesis
  proof (cases r)
    case None
    have "\<forall>p\<in>set (pieces d). \<not> schedulable d p"
    proof
      fix p assume "p \<in> set (pieces d)"
      then obtain x where x: "x < length (pieces d)" "p = pieces d ! x"
        by (auto simp add: in_set_conv_nth)
      then have "x \<in> set ?xs" using set_xs by simp
      from piecesLoop_None [OF r [unfolded None] this]
      show "\<not> schedulable d p" using x by (simp add: sortedPieces_frame)
    qed
    then show ?thesis using nd None by simp
  next
    case (Some pd)
    from piecesLoop_Some [OF r [unfolded Some]] obtain ys x zs k a where
      h: "?xs = ys @ x # zs" "eligible ?d' (pieces ?d' ! x)" "pdPiece pd = Index (pieces ?d' ! x)"
        "(k, Some a) \<in> set (havingPeers (pieces ?d' ! x))" "Peer (heap ?d' a) = pdPeer pd"
        "fastCandidate ?d' (pieces ?d' ! x) a
            \<or> (unchokedCandidate ?d' a
                 \<and> (\<forall>k b. (k, Some b) \<in> set (havingPeers (pieces ?d' ! x))
                        \<longrightarrow> \<not> fastCandidate ?d' (pieces ?d' ! x) b))"
      by blast
    let ?p = "pieces d ! x"
    have "x \<in> set ?xs" using h(1) by (metis in_set_conv_decomp)
    then have xlt: "x < length (pieces d)" using set_xs by simp
    then have pin: "?p \<in> set (pieces d)" by simp
    have e: "eligible d ?p" using h(2) by (simp add: sortedPieces_frame)
    have i: "Index ?p = pdPiece pd" using h(3) by simp
    have m: "(k, Some a) \<in> set (havingPeers ?p)" using h(4) by simp
    have q: "Peer (heap d a) = pdPeer pd" using h(5) by simp
    have c: "fastCandidate d ?p a
            \<or> (unchokedCandidate d a
                 \<and> (\<forall>k b. (k, Some b) \<in> set (havingPeers ?p) \<longrightarrow> \<not> fastCandidate d ?p b))"
      using h(6) by (simp add: sortedPieces_frame)
    have nodl: "\<not> has (pdPeer pd) (downloads d)"
      using c q by (auto simp add: fastCandidate_def unchokedCandidate_def)
    have pref: "has (pdPeer pd) (allowedFastPeers ?p)
                  \<or> (\<not> peerChoking (heap d a)
                       \<and> (\<forall>k b. (k, Some b) \<in> set (havingPeers ?p) \<longrightarrow> \<not> fastCandidate d ?p b))"
      using c q by (auto simp add: fastCandidate_def unchokedCandidate_def)
    have "\<exists>p\<in>set (pieces d). \<exists>k a. Index p = pdPiece pd \<and> eligible d p
             \<and> (k, Some a) \<in> set (havingPeers p) \<and> Peer (heap d a) = pdPeer pd
             \<and> \<not> has (pdPeer pd) (downloads d)
             \<and> (has (pdPeer pd) (allowedFastPeers p)
                  \<or> (\<not> peerChoking (heap d a)
                       \<and> (\<forall>k b. (k, Some b) \<in> set (havingPeers p) \<longrightarrow> \<not> fastCandidate d p b)))"
      using pin e i m q nodl pref by blast
    then show ?thesis using nd Some by simp
  qed
qed

text \<open>
  On \<open>fastState\<close> the selector passes over peer 7, which comes first and is not choking us,
  and returns peer 8, which chokes us and allowed the piece fast.
\<close>

theorem nextDownload_candidates_witness:
  "set (sortedPieces fastState) = {..<length (pieces fastState)}
   \<and> nextDownload fastState = Inr (Some \<lparr>pdPiece = 0, pdPeer = 8\<rparr>, fastState)
   \<and> peerChoking (heap fastState 1)
   \<and> (\<exists>p\<in>set (pieces fastState). \<exists>k a. Index p = 0 \<and> eligible fastState p
         \<and> (k, Some a) \<in> set (havingPeers p) \<and> Peer (heap fastState a) = 8
         \<and> \<not> has 8 (downloads fastState)
         \<and> (has 8 (allowedFastPeers p)
              \<or> (\<not> peerChoking (heap fastState a)
                   \<and> (\<forall>k b. (k, Some b) \<in> set (havingPeers p) \<longrightarrow> \<not> fastCandidate fastState p b))))"
proof -
  have h1: "set (sortedPieces fastState) = {..<length (pieces fastState)}"
    by (auto simp add: fastState_def)
  have h2: "\<forall>p\<in>set (pieces fastState). \<forall>(k, pe)\<in>set (havingPeers p). pe \<noteq> None"
    by (simp add: fastState_def)
  have ev: "nextDownload fastState = Inr (Some \<lparr>pdPiece = 0, pdPeer = 8\<rparr>, fastState)"
    by (simp add: nextDownload_def ByAvailability_def Test_def has_def fastState_def)
  have pc: "peerChoking (heap fastState 1)" by (simp add: fastState_def)
  from nextDownload_candidates [OF h1 h2] ev
  have "\<exists>p\<in>set (pieces fastState). \<exists>k a. Index p = pdPiece \<lparr>pdPiece = 0, pdPeer = 8\<rparr>
         \<and> eligible fastState p
         \<and> (k, Some a) \<in> set (havingPeers p)
         \<and> Peer (heap fastState a) = pdPeer \<lparr>pdPiece = 0, pdPeer = 8\<rparr>
         \<and> \<not> has (pdPeer \<lparr>pdPiece = 0, pdPeer = 8\<rparr>) (downloads fastState)
         \<and> (has (pdPeer \<lparr>pdPiece = 0, pdPeer = 8\<rparr>) (allowedFastPeers p)
              \<or> (\<not> peerChoking (heap fastState a)
                   \<and> (\<forall>k b. (k, Some b) \<in> set (havingPeers p) \<longrightarrow> \<not> fastCandidate fastState p b)))"
    by auto
  then show ?thesis using h1 ev pc by simp
qed

text \<open>
  C4, as the spec states it, fails on \<open>chokedState\<close>: both pieces are eligible, piece 0 has
  one peer and piece 1 has two, and the selector returns piece 1, since the only peer of
  piece 0 chokes us.
\<close>

theorem rarest_first_over_eligible_counterexample:
  "Run exVerify [Connect 7, Connect 8, Connect 9, Have 7 0, Have 8 1, Have 9 1, Unchoke 8, Unchoke 9]
       (New 2 [False, False]) = Inr (Continue chokedState)
   \<and> nextDownload chokedState = Inr (Some \<lparr>pdPiece = 1, pdPeer = 8\<rparr>, chokedState)
   \<and> eligible chokedState (pieces chokedState ! 0)
   \<and> eligible chokedState (pieces chokedState ! 1)
   \<and> length (havingPeers (pieces chokedState ! 0)) = 1
   \<and> length (havingPeers (pieces chokedState ! 1)) = 2"
proof -
  have ev: "nextDownload chokedState = Inr (Some \<lparr>pdPiece = 1, pdPeer = 8\<rparr>, chokedState)"
    by (simp add: nextDownload_def ByAvailability_def Test_def has_def chokedState_def)
  show ?thesis
    using ev chokedState_reached [of exVerify]
    by (simp add: eligible_def Test_def) (simp add: chokedState_def)
qed

text \<open>
  C4, as amended. When \<^verbatim>\<open>nextDownload\<close> returns a downloader, its piece is among the pieces
  that are eligible and have a surviving candidate peer, and among those it has the least
  availability (\<open>length havingPeers\<close>), and the lowest index among those of equal
  availability. An eligible piece whose peers all choke us or are busy is skipped, whatever
  its availability. The hypotheses: \<open>sortedPieces\<close> points to every piece, and the piece at
  position \<open>i\<close> carries index \<open>i\<close>.
\<close>

theorem nextDownload_rarest_first:
  assumes ptrs: "set (sortedPieces d) = {..<length (pieces d)}"
    and idx: "\<forall>i<length (pieces d). Index (pieces d ! i) = i"
    and res: "nextDownload d = Inr (Some pd, d')"
    and j: "j < length (pieces d)" "schedulable d (pieces d ! j)"
  shows "pdPiece pd < length (pieces d)
     \<and> schedulable d (pieces d ! pdPiece pd)
     \<and> length (havingPeers (pieces d ! pdPiece pd)) \<le> length (havingPeers (pieces d ! j))
     \<and> (length (havingPeers (pieces d ! pdPiece pd)) = length (havingPeers (pieces d ! j))
          \<longrightarrow> pdPiece pd \<le> j)"
proof -
  let ?key = "ByAvailability (pieces d)"
  let ?xs = "sort_key ?key (sortedPieces d)"
  let ?d' = "d\<lparr>sortedPieces := ?xs\<rparr>"
  have set_xs: "set ?xs = {..<length (pieces d)}" using ptrs by simp
  from res have r: "piecesLoop ?d' ?xs = Inr (Some pd)"
    by (simp add: nextDownload_eq split: sum.splits)
  from piecesLoop_Some [OF r] obtain ys x zs k a where
    h: "?xs = ys @ x # zs" "\<forall>y\<in>set ys. \<not> schedulable ?d' (pieces ?d' ! y)"
      "eligible ?d' (pieces ?d' ! x)" "pdPiece pd = Index (pieces ?d' ! x)"
      "(k, Some a) \<in> set (havingPeers (pieces ?d' ! x))"
      "fastCandidate ?d' (pieces ?d' ! x) a
            \<or> (unchokedCandidate ?d' a
                 \<and> (\<forall>k b. (k, Some b) \<in> set (havingPeers (pieces ?d' ! x))
                        \<longrightarrow> \<not> fastCandidate ?d' (pieces ?d' ! x) b))"
    by blast
  have "x \<in> set ?xs" using h(1) by (metis in_set_conv_decomp)
  then have xlt: "x < length (pieces d)" using set_xs by simp
  have px: "pdPiece pd = x" using h(4) idx xlt by simp
  have sx: "schedulable d (pieces d ! x)"
    using h(3,5,6) by (auto simp add: schedulable_iff sortedPieces_frame)
  have srt: "sorted (map ?key (ys @ x # zs))"
    using sorted_sort_key [of ?key "sortedPieces d"] h(1) by simp
  have "j \<in> set ?xs" using j(1) set_xs by simp
  moreover have "j \<notin> set ys" using h(2) j(2) by (auto simp add: sortedPieces_frame)
  ultimately have "j = x \<or> j \<in> set zs" using h(1) by auto
  then have "?key x \<le> ?key j"
    using srt by (auto simp add: sorted_append)
  then have "length (havingPeers (pieces d ! x)) < length (havingPeers (pieces d ! j))
       \<or> (length (havingPeers (pieces d ! x)) = length (havingPeers (pieces d ! j)) \<and> x \<le> j)"
    using idx xlt j(1) by (auto simp add: ByAvailability_def less_eq_prod_def)
  then show ?thesis using xlt sx px by auto
qed

text \<open>
  On \<open>tieState\<close> both pieces can be scheduled and have one peer each; \<open>sortedPieces\<close> has
  piece 1 in front, and the selector sorts and returns piece 0.
\<close>

theorem nextDownload_rarest_first_witness:
  "set (sortedPieces tieState) = {..<length (pieces tieState)}
   \<and> nextDownload tieState
        = Inr (Some \<lparr>pdPiece = 0, pdPeer = 7\<rparr>, tieState\<lparr>sortedPieces := [0, 1]\<rparr>)
   \<and> schedulable tieState (pieces tieState ! 1)
   \<and> schedulable tieState (pieces tieState ! 0)
   \<and> length (havingPeers (pieces tieState ! 0)) = length (havingPeers (pieces tieState ! 1))
   \<and> pdPiece \<lparr>pdPiece = 0, pdPeer = 7\<rparr> \<le> 1"
proof -
  let ?pd = "\<lparr>pdPiece = 0, pdPeer = 7\<rparr>"
  have h1: "set (sortedPieces tieState) = {..<length (pieces tieState)}"
    by (auto simp add: tieState_def)
  have h2: "\<forall>i<length (pieces tieState). Index (pieces tieState ! i) = i"
    by (simp add: tieState_def less_Suc_eq)
  have ev: "nextDownload tieState = Inr (Some ?pd, tieState\<lparr>sortedPieces := [0, 1]\<rparr>)"
    by (simp add: nextDownload_def ByAvailability_def Test_def has_def tieState_def)
  have j: "(1::nat) < length (pieces tieState)" by (simp add: tieState_def)
  have s: "schedulable tieState (pieces tieState ! 1)"
    by (simp add: schedulable_def eligible_def fastCandidate_def unchokedCandidate_def
          Test_def has_def tieState_def)
  have len: "length (havingPeers (pieces tieState ! 0)) = length (havingPeers (pieces tieState ! 1))"
    by (simp add: tieState_def)
  from nextDownload_rarest_first [OF h1 h2 ev j s] len
  have "schedulable tieState (pieces tieState ! 0) \<and> pdPiece ?pd \<le> 1"
    by simp
  then show ?thesis using h1 ev s len by simp
qed

subsection \<open>A finished download\<close>



subsection \<open>Disconnect\<close>

text \<open>
  C2. The spec: after \<^verbatim>\<open>Disconnect(q)\<close>, \<open>q\<close> is absent from the three sets of every piece
  and from the active downloads. The code, in every state and for every peer \<open>q\<close>, returns
  a state in which \<open>q\<close> is deleted from \<open>connectedPeers\<close> and from the three maps of every
  piece, and in which \<open>downloads\<close> is what it was: a peer that had an active download still
  has it. So peer 7 connects, announces piece 0, unchokes us, the download of piece 0 from
  7 starts, 7 disconnects, and 7 is still a key of \<open>downloads\<close>.
\<close>

theorem disconnect_keeps_download:
  "\<exists>d'. Run_Disconnect q d = Inr d'
     \<and> downloads d' = downloads d
     \<and> \<not> has q (connectedPeers d')
     \<and> (\<forall>p\<in>set (pieces d'). \<not> has q (havingPeers p) \<and> \<not> has q (allowedFastPeers p)
                                 \<and> \<not> has q (requestedPeers p))"
  by (auto simp add: Run_Disconnect_def has_delete)

theorem disconnect_keeps_download_witness:
  "Run exVerify [Connect 7, Have 7 0, Unchoke 7, DownloadersWait] (New 1 [False])
     = Inr (Continue dlState)
   \<and> has 7 (downloads dlState)
   \<and> (\<exists>d'. Run_Disconnect 7 dlState = Inr d'
         \<and> has 7 (downloads d') \<and> downloads d' = [(7, \<lparr>pdPiece = 0, pdPeer = 7\<rparr>)]
         \<and> \<not> has 7 (connectedPeers d')
         \<and> (\<forall>p\<in>set (pieces d'). \<not> has 7 (havingPeers p) \<and> \<not> has 7 (allowedFastPeers p)
                                     \<and> \<not> has 7 (requestedPeers p)))"
proof -
  have dl: "downloads dlState = [(7, \<lparr>pdPiece = 0, pdPeer = 7\<rparr>)]" by (simp add: dlState_def)
  then have h: "has 7 (downloads dlState)" by (simp add: has_def)
  from disconnect_keeps_download [of 7 dlState] h dl
  have "\<exists>d'. Run_Disconnect 7 dlState = Inr d'
         \<and> has 7 (downloads d') \<and> downloads d' = [(7, \<lparr>pdPiece = 0, pdPeer = 7\<rparr>)]
         \<and> \<not> has 7 (connectedPeers d')
         \<and> (\<forall>p\<in>set (pieces d'). \<not> has 7 (havingPeers p) \<and> \<not> has 7 (allowedFastPeers p)
                                     \<and> \<not> has 7 (requestedPeers p))"
    by auto
  then show ?thesis using dlState_reached [of exVerify] h by simp
qed

subsection \<open>The regular unchoke tick\<close>

lemma chokePeer_simps:
  "amChoking (heap (chokePeer a s) b) = (b = a \<or> amChoking (heap s b))"
  "optimisticUnhoked (heap (chokePeer a s) b) = optimisticUnhoked (heap s b)"
  "Peer (heap (chokePeer a s) b) = Peer (heap s b)"
  "optimisticUnchokedPeer (chokePeer a s) = optimisticUnchokedPeer s"
  "effects (chokePeer a s) =
     effects s @ (if \<not> amChoking (heap s a) then [SendChoke (Peer (heap s a))] else [])"
  by (auto simp add: chokePeer_def)

lemma unchokePeer_simps:
  "amChoking (heap (unchokePeer a s) b) = (b \<noteq> a \<and> amChoking (heap s b))"
  "optimisticUnhoked (heap (unchokePeer a s) b) = optimisticUnhoked (heap s b)"
  "Peer (heap (unchokePeer a s) b) = Peer (heap s b)"
  "optimisticUnchokedPeer (unchokePeer a s) = optimisticUnchokedPeer s"
  "\<exists>es. effects (unchokePeer a s) = effects s @ es"
  by (auto simp add: unchokePeer_def)

lemma foldl_frame:
  "(\<And>s x. x \<in> set xs \<Longrightarrow> g (f s x) = g s) \<Longrightarrow> g (foldl f d xs) = g d"
  by (induction xs arbitrary: d) simp_all

lemma foldl_invariant:
  "(\<And>s x. P s \<Longrightarrow> P (f s x)) \<Longrightarrow> P d \<Longrightarrow> P (foldl f d xs)"
  by (induction xs arbitrary: d) simp_all

lemma foldl_effects:
  assumes "\<And>s x. \<exists>es. effects (f s x) = effects s @ es"
  shows "\<exists>es. effects (foldl f d xs) = effects d @ es"
proof (induction xs arbitrary: d)
  case Nil
  then show ?case by simp
next
  case (Cons x xs)
  obtain es1 where "effects (f d x) = effects d @ es1" using assms by blast
  moreover obtain es2 where "effects (foldl f (f d x) xs) = effects (f d x) @ es2"
    using Cons by blast
  ultimately show ?case by simp
qed

lemma resetStep_simps:
  "amChoking (heap (resetStep s x) b) = amChoking (heap s b)"
  "optimisticUnhoked (heap (resetStep s x) b) = optimisticUnhoked (heap s b)"
  "Peer (heap (resetStep s x) b) = Peer (heap s b)"
  "optimisticUnchokedPeer (resetStep s x) = optimisticUnchokedPeer s"
  "effects (resetStep s x) = effects s"
  by (cases x; simp add: resetStep_def)+

lemma resetLoop_frame:
  "amChoking (heap (foldl resetStep d xs) b) = amChoking (heap d b)"
  "optimisticUnhoked (heap (foldl resetStep d xs) b) = optimisticUnhoked (heap d b)"
  "Peer (heap (foldl resetStep d xs) b) = Peer (heap d b)"
  "optimisticUnchokedPeer (foldl resetStep d xs) = optimisticUnchokedPeer d"
  "effects (foldl resetStep d xs) = effects d"
  by (rule foldl_frame, simp add: resetStep_simps)+

lemma unchokeLoop_frame:
  "b \<notin> set ys \<Longrightarrow>
     amChoking (heap (foldl (\<lambda>s pe. unchokePeer pe s) d ys) b) = amChoking (heap d b)"
  "optimisticUnhoked (heap (foldl (\<lambda>s pe. unchokePeer pe s) d ys) b) = optimisticUnhoked (heap d b)"
  "Peer (heap (foldl (\<lambda>s pe. unchokePeer pe s) d ys) b) = Peer (heap d b)"
  "optimisticUnchokedPeer (foldl (\<lambda>s pe. unchokePeer pe s) d ys) = optimisticUnchokedPeer d"
  "\<exists>es. effects (foldl (\<lambda>s pe. unchokePeer pe s) d ys) = effects d @ es"
proof -
  show "amChoking (heap (foldl (\<lambda>s pe. unchokePeer pe s) d ys) b) = amChoking (heap d b)"
    if "b \<notin> set ys"
    by (rule foldl_frame) (use that in \<open>auto simp add: unchokePeer_simps\<close>)
  show "optimisticUnhoked (heap (foldl (\<lambda>s pe. unchokePeer pe s) d ys) b) = optimisticUnhoked (heap d b)"
    by (rule foldl_frame) (simp add: unchokePeer_simps)
  show "Peer (heap (foldl (\<lambda>s pe. unchokePeer pe s) d ys) b) = Peer (heap d b)"
    by (rule foldl_frame) (simp add: unchokePeer_simps)
  show "optimisticUnchokedPeer (foldl (\<lambda>s pe. unchokePeer pe s) d ys) = optimisticUnchokedPeer d"
    by (rule foldl_frame) (simp add: unchokePeer_simps)
  show "\<exists>es. effects (foldl (\<lambda>s pe. unchokePeer pe s) d ys) = effects d @ es"
    by (rule foldl_effects) (rule unchokePeer_simps)
qed

lemma chokeStep_simps:
  "amChoking (heap s b) \<Longrightarrow> amChoking (heap (chokeStep us s x) b)"
  "optimisticUnhoked (heap (chokeStep us s x) b) = optimisticUnhoked (heap s b)"
  "Peer (heap (chokeStep us s x) b) = Peer (heap s b)"
  "optimisticUnchokedPeer (chokeStep us s x) = optimisticUnchokedPeer s"
  "\<exists>es. effects (chokeStep us s x) = effects s @ es"
  by (cases x; simp add: chokeStep_def chokePeer_simps)+

lemma chokeLoop_frame:
  "amChoking (heap d b) \<Longrightarrow> amChoking (heap (foldl (chokeStep us) d zs) b)"
  "optimisticUnhoked (heap (foldl (chokeStep us) d zs) b) = optimisticUnhoked (heap d b)"
  "Peer (heap (foldl (chokeStep us) d zs) b) = Peer (heap d b)"
  "optimisticUnchokedPeer (foldl (chokeStep us) d zs) = optimisticUnchokedPeer d"
  "\<exists>es. effects (foldl (chokeStep us) d zs) = effects d @ es"
proof -
  show "amChoking (heap (foldl (chokeStep us) d zs) b)" if "amChoking (heap d b)"
    by (rule foldl_invariant [where P = "\<lambda>s. amChoking (heap s b)"])
       (simp_all add: chokeStep_simps that)
  show "optimisticUnhoked (heap (foldl (chokeStep us) d zs) b) = optimisticUnhoked (heap d b)"
    by (rule foldl_frame) (simp add: chokeStep_simps)
  show "Peer (heap (foldl (chokeStep us) d zs) b) = Peer (heap d b)"
    by (rule foldl_frame) (simp add: chokeStep_simps)
  show "optimisticUnchokedPeer (foldl (chokeStep us) d zs) = optimisticUnchokedPeer d"
    by (rule foldl_frame) (simp add: chokeStep_simps)
  show "\<exists>es. effects (foldl (chokeStep us) d zs) = effects d @ es"
    by (rule foldl_effects) (rule chokeStep_simps)
qed

lemma chokeLoop_chokes:
  assumes "(k, pe) \<in> set zs" "pe \<notin> set us"
  shows "amChoking (heap (foldl (chokeStep us) d zs) pe)
     \<and> (\<exists>es. effects (foldl (chokeStep us) d zs) = effects d @ es
           \<and> (\<not> amChoking (heap d pe) \<longrightarrow> SendChoke (Peer (heap d pe)) \<in> set es))"
  using assms(1)
proof (induction zs arbitrary: d)
  case Nil
  then show ?case by simp
next
  case (Cons z zs)
  obtain k' pe' where z: "z = (k', pe')" by (cases z)
  let ?d1 = "chokeStep us d z"
  obtain es where es: "effects (foldl (chokeStep us) ?d1 zs) = effects ?d1 @ es"
    using chokeLoop_frame(5) by blast
  show ?case
  proof (cases "pe' = pe")
    case True
    then have d1: "?d1 = chokePeer pe d" using assms(2) by (simp add: z chokeStep_def)
    have "amChoking (heap ?d1 pe)" by (simp add: d1 chokePeer_simps)
    then have a: "amChoking (heap (foldl (chokeStep us) ?d1 zs) pe)" by (rule chokeLoop_frame(1))
    have e1: "effects ?d1 = effects d @
        (if \<not> amChoking (heap d pe) then [SendChoke (Peer (heap d pe))] else [])"
      by (simp add: d1 chokePeer_simps)
    have "effects (foldl (chokeStep us) d (z # zs)) = effects d @
        ((if \<not> amChoking (heap d pe) then [SendChoke (Peer (heap d pe))] else []) @ es)"
      by (simp add: es e1)
    moreover have "\<not> amChoking (heap d pe) \<longrightarrow> SendChoke (Peer (heap d pe))
        \<in> set ((if \<not> amChoking (heap d pe) then [SendChoke (Peer (heap d pe))] else []) @ es)"
      by simp
    ultimately show ?thesis using a by (metis foldl_Cons)
  next
    case False
    then have in_zs: "(k, pe) \<in> set zs" using Cons.prems z by auto
    have same: "amChoking (heap ?d1 pe) = amChoking (heap d pe)" "Peer (heap ?d1 pe) = Peer (heap d pe)"
      using False by (auto simp add: z chokeStep_def chokePeer_simps)
    obtain es1 where es1: "effects ?d1 = effects d @ es1"
      using chokeStep_simps(5) by blast
    from Cons.IH [OF in_zs, of ?d1] obtain es' where
      a: "amChoking (heap (foldl (chokeStep us) ?d1 zs) pe)"
      and e: "effects (foldl (chokeStep us) ?d1 zs) = effects ?d1 @ es'"
      and s: "\<not> amChoking (heap ?d1 pe) \<longrightarrow> SendChoke (Peer (heap ?d1 pe)) \<in> set es'"
      by blast
    have "effects (foldl (chokeStep us) d (z # zs)) = effects d @ (es1 @ es')"
      by (simp add: e es1)
    moreover have "\<not> amChoking (heap d pe) \<longrightarrow> SendChoke (Peer (heap d pe)) \<in> set (es1 @ es')"
      using s same by simp
    ultimately show ?thesis using a by (metis foldl_Cons)
  qed
qed

text \<open>
  C1. The spec: the regular tick chokes every connected peer outside the top 3 except the
  optimistic one. The code leaves the optimistic peer out of the list it sorts, and then
  chokes every connected peer that is not among the 3 it unchoked, the optimistic peer
  included: in every state, a connected peer whose struct is flagged optimistic is choked
  by us after the regular tick and still flagged, the optimistic pick of the state is
  unchanged, and \<^verbatim>\<open>Choke\<close> is sent to the peer if it was unchoked before. So five peers
  connect (the first four are unchoked on connect), the optimistic tick picks the fifth
  (struct at address 4) and unchokes it, and the next regular tick chokes it, sending
  \<^verbatim>\<open>Choke\<close> to peer 5, while it still is the optimistic pick.
\<close>

theorem unchoke_tick_chokes_optimistic_peer:
  assumes conn: "(k, pe) \<in> set (connectedPeers d)"
    and opt: "optimisticUnhoked (heap d pe)"
  shows "\<exists>d' es. Run_unchokeTimer d = Inr d'
           \<and> amChoking (heap d' pe)
           \<and> optimisticUnhoked (heap d' pe)
           \<and> optimisticUnchokedPeer d' = optimisticUnchokedPeer d
           \<and> effects d' = effects d @ es
           \<and> (\<not> amChoking (heap d pe) \<longrightarrow> SendChoke (Peer (heap d pe)) \<in> set es)"
proof -
  let ?peers = "map snd (filter (\<lambda>(k, pe). \<not> optimisticUnhoked (heap d pe)) (connectedPeers d))"
  let ?top = "take 3 (sort_key (ByDownloadRate (heap d)) ?peers)"
  let ?d1 = "foldl resetStep d (connectedPeers d)"
  let ?d2 = "foldl (\<lambda>s pe. unchokePeer pe s) ?d1 ?top"
  let ?d3 = "foldl (chokeStep ?top) ?d2 (connectedPeers d)"
  have run: "Run_unchokeTimer d = Inr ?d3"
    by (simp add: Run_unchokeTimer_def Let_def)
  have "set ?top \<subseteq> set ?peers"
    using set_take_subset [of 3 "sort_key (ByDownloadRate (heap d)) ?peers"] by simp
  moreover have "pe \<notin> set ?peers" using opt by auto
  ultimately have notin: "pe \<notin> set ?top" by blast
  have f1: "amChoking (heap ?d1 pe) = amChoking (heap d pe)"
    "optimisticUnhoked (heap ?d1 pe) = optimisticUnhoked (heap d pe)"
    "Peer (heap ?d1 pe) = Peer (heap d pe)"
    "optimisticUnchokedPeer ?d1 = optimisticUnchokedPeer d" "effects ?d1 = effects d"
    by (rule resetLoop_frame)+
  have f2: "amChoking (heap ?d2 pe) = amChoking (heap ?d1 pe)"
    "optimisticUnhoked (heap ?d2 pe) = optimisticUnhoked (heap ?d1 pe)"
    "Peer (heap ?d2 pe) = Peer (heap ?d1 pe)"
    "optimisticUnchokedPeer ?d2 = optimisticUnchokedPeer ?d1"
    by (rule unchokeLoop_frame(1) [OF notin], (rule unchokeLoop_frame)+)
  obtain es2 where f25: "effects ?d2 = effects ?d1 @ es2"
    using unchokeLoop_frame(5) by blast
  have f3: "optimisticUnhoked (heap ?d3 pe) = optimisticUnhoked (heap ?d2 pe)"
    "optimisticUnchokedPeer ?d3 = optimisticUnchokedPeer ?d2"
    by (rule chokeLoop_frame)+
  from chokeLoop_chokes [OF conn notin, of ?d2] obtain es3 where
    c: "amChoking (heap ?d3 pe)" "effects ?d3 = effects ?d2 @ es3"
      "\<not> amChoking (heap ?d2 pe) \<longrightarrow> SendChoke (Peer (heap ?d2 pe)) \<in> set es3"
    by blast
  have e: "effects ?d3 = effects d @ (es2 @ es3)" by (simp add: c(2) f25 f1(5))
  have s: "\<not> amChoking (heap d pe) \<longrightarrow> SendChoke (Peer (heap d pe)) \<in> set (es2 @ es3)"
    using c(3) by (simp add: f1 f2)
  have o: "optimisticUnhoked (heap ?d3 pe)" using opt by (simp add: f1 f2 f3)
  have q: "optimisticUnchokedPeer ?d3 = optimisticUnchokedPeer d" by (simp add: f1 f2 f3)
  show ?thesis using run c(1) o q e s by blast
qed

theorem unchoke_tick_chokes_optimistic_peer_witness:
  "Run exVerify [Connect 1, Connect 2, Connect 3, Connect 4, Connect 5, OptimisticUnchokeTimer 0]
     (New 1 [False]) = Inr (Continue optState)
   \<and> (5, 4) \<in> set (connectedPeers optState)
   \<and> optimisticUnchokedPeer optState = Some 4
   \<and> optimisticUnhoked (heap optState 4)
   \<and> \<not> amChoking (heap optState 4)
   \<and> (\<exists>d' es. Run_unchokeTimer optState = Inr d'
         \<and> amChoking (heap d' 4) \<and> optimisticUnhoked (heap d' 4)
         \<and> optimisticUnchokedPeer d' = Some 4
         \<and> effects d' = effects optState @ es \<and> SendChoke 5 \<in> set es)"
proof -
  have h: "(5, 4) \<in> set (connectedPeers optState)" "optimisticUnhoked (heap optState 4)"
    and p: "optimisticUnchokedPeer optState = Some 4" "\<not> amChoking (heap optState 4)"
      "Peer (heap optState 4) = 5"
    by (simp_all add: optState_def)
  from unchoke_tick_chokes_optimistic_peer [OF h] p
  have "\<exists>d' es. Run_unchokeTimer optState = Inr d'
         \<and> amChoking (heap d' 4) \<and> optimisticUnhoked (heap d' 4)
         \<and> optimisticUnchokedPeer d' = Some 4
         \<and> effects d' = effects optState @ es \<and> SendChoke 5 \<in> set es"
    by auto
  then show ?thesis using optState_reached [of exVerify 0] h p by simp
qed

subsection \<open>The invariant\<close>

text \<open>
  The hypotheses of the statements above about the state hold in every state that the loop
  reaches from \<^verbatim>\<open>New\<close> without a panic.
\<close>

lemma New_wellformed: "length bf = n \<Longrightarrow> wellformed (New n bf)"
  by (auto simp add: wellformed_def invariant_def New_def)

lemma invariant_piece_update:
  assumes "invariant bf ps sp cp h np" and "i < length ps"
    and "Index p = Index (ps ! i)"
    and "\<forall>(k, pe)\<in>set (havingPeers p). pe \<noteq> None"
  shows "invariant bf (ps[i := p]) sp cp h np"
  using assms by (auto simp add: invariant_def nth_list_update)

lemma invariant_piece_same:
  assumes inv: "invariant bf ps sp cp h np" and lt: "i < length ps"
    and "Index p = Index (ps ! i)"
    and hp: "havingPeers p = havingPeers (ps ! i)"
  shows "invariant bf (ps[i := p]) sp cp h np"
proof (rule invariant_piece_update [OF inv lt])
  show "Index p = Index (ps ! i)" by fact
  show "\<forall>(k, pe)\<in>set (havingPeers p). pe \<noteq> None"
    using inv lt by (simp add: hp invariant_def)
qed

lemma invariant_heap_update:
  assumes "invariant bf ps sp cp h np" and "Peer p = Peer (h a)"
  shows "invariant bf ps sp cp (h(a := p)) np"
  using assms by (auto simp add: invariant_def)

lemma invariant_heap_frame:
  assumes "invariant bf ps sp cp h np" and "\<forall>a. Peer (h' a) = Peer (h a)"
  shows "invariant bf ps sp cp h' np"
  using assms by (auto simp add: invariant_def)

lemma invariant_sorted:
  assumes "invariant bf ps sp cp h np" and "set sp' = set sp"
  shows "invariant bf ps sp' cp h np"
  using assms by (auto simp add: invariant_def)

lemma updateInterestedState_frame:
  assumes "updateInterestedState pe d = Inr d'"
  shows "pe \<noteq> None \<and> bitfield d' = bitfield d \<and> pieces d' = pieces d
     \<and> sortedPieces d' = sortedPieces d \<and> connectedPeers d' = connectedPeers d
     \<and> nextPeer d' = nextPeer d \<and> (\<forall>a. Peer (heap d' a) = Peer (heap d a))"
  using assms
  by (cases pe) (auto simp add: updateInterestedState_def split: sum.splits if_splits)

lemma updateInterestedState_wellformed:
  assumes "wellformed d" "updateInterestedState pe d = Inr d'"
  shows "wellformed d'"
  using assms updateInterestedState_frame [OF assms(2)]
    invariant_heap_frame [of "bitfield d" "pieces d" "sortedPieces d" "connectedPeers d" "heap d"
      "nextPeer d" "heap d'"]
  by (simp add: wellformed_def)

lemma chokePeer_wellformed: "wellformed d \<Longrightarrow> wellformed (chokePeer a d)"
  by (simp add: chokePeer_def wellformed_def invariant_heap_update)

lemma unchokePeer_wellformed: "wellformed d \<Longrightarrow> wellformed (unchokePeer a d)"
  by (simp add: unchokePeer_def wellformed_def invariant_heap_update)

lemma nextDownload_wellformed:
  assumes "wellformed d" "nextDownload d = Inr (r, d')"
  shows "wellformed d'"
  using assms
  by (auto simp add: nextDownload_eq wellformed_def invariant_sorted split: sum.splits)

lemma Run_downloadersWait_wellformed:
  assumes wf: "wellformed d" and r: "Run_downloadersWait d = Inr d'"
  shows "wellformed d'"
proof -
  from r obtain x d1 where nd: "nextDownload d = Inr (x, d1)"
    by (auto simp add: Run_downloadersWait_def split: sum.splits)
  have wf1: "wellformed d1" by (rule nextDownload_wellformed [OF wf nd])
  show ?thesis
  proof (cases x)
    case None
    then show ?thesis using r nd wf1 by (auto simp add: Run_downloadersWait_def wellformed_def)
  next
    case (Some pd)
    then have lt: "pdPiece pd < length (pieces d1)"
      and d': "d' = d1\<lparr>downloads := AList.update (pdPeer pd) pd (downloads d1),
                    pieces := (pieces d1)[pdPiece pd := (pieces d1 ! pdPiece pd)
                       \<lparr>requestedPeers := AList.update (pdPeer pd) pd
                             (requestedPeers (pieces d1 ! pdPiece pd))\<rparr>],
                    effects := effects d1 @ [StartDownloader pd]\<rparr>"
      using r nd by (simp_all add: Run_downloadersWait_def Let_def split: if_splits)
    have "invariant (bitfield d1) ((pieces d1)[pdPiece pd := (pieces d1 ! pdPiece pd)
                       \<lparr>requestedPeers := AList.update (pdPeer pd) pd
                             (requestedPeers (pieces d1 ! pdPiece pd))\<rparr>])
             (sortedPieces d1) (connectedPeers d1) (heap d1) (nextPeer d1)"
      using wf1 lt unfolding wellformed_def
      by (intro invariant_piece_same) simp_all
    then show ?thesis by (simp add: d' wellformed_def)
  qed
qed

lemma Run_downloadDone_wellformed:
  assumes wf: "wellformed d" and r: "Run_downloadDone V pd res d = Inr c"
  shows "wellformed (stateOf c)"
proof -
  let ?i = "pdPiece pd"
  from r have lt: "?i < length (pieces d)"
    by (simp add: Run_downloadDone_def Let_def split: if_splits)
  let ?ps1 = "(pieces d)[?i := (pieces d ! ?i)
               \<lparr>requestedPeers := AList.delete (pdPeer pd) (requestedPeers (pieces d ! ?i))\<rparr>]"
  have i1: "invariant (bitfield d) ?ps1 (sortedPieces d) (connectedPeers d) (heap d) (nextPeer d)"
    using wf lt unfolding wellformed_def
    by (intro invariant_piece_same) simp_all
  have lt1: "?i < length ?ps1" using lt by simp
  have i2: "invariant (bitfield d) (?ps1[?i := (?ps1 ! ?i)\<lparr>writing := True\<rparr>])
              (sortedPieces d) (connectedPeers d) (heap d) (nextPeer d)"
    by (rule invariant_piece_same [OF i1 lt1]) simp_all
  from r lt i1 i2 show ?thesis
    by (cases res) (auto simp add: Run_downloadDone_def Let_def wellformed_def split: if_splits)
qed

lemma haveLoop_wellformed:
  assumes wf: "wellformed d" and r: "haveLoop idx xs d = Inr d'"
  shows "wellformed d'"
proof -
  have len: "length (bitfield d) = length (pieces d)"
    using wf by (simp add: wellformed_def invariant_def)
  from haveLoop_props [OF len, of idx xs] r
  have "bitfield d' = bitfield d \<and> pieces d' = pieces d \<and> sortedPieces d' = sortedPieces d
     \<and> connectedPeers d' = connectedPeers d \<and> nextPeer d' = nextPeer d
     \<and> (\<forall>a. Peer (heap d' a) = Peer (heap d a))"
    by auto
  then show ?thesis
    using wf invariant_heap_frame [of "bitfield d" "pieces d" "sortedPieces d" "connectedPeers d"
      "heap d" "nextPeer d" "heap d'"]
    by (simp add: wellformed_def)
qed

lemma Run_writeResponses_wellformed:
  assumes wf: "wellformed d" and r: "Run_writeResponses idx err d = Inr d'"
  shows "wellformed d'"
proof -
  from r have lt: "idx < length (pieces d)"
    by (simp add: Run_writeResponses_def split: if_splits)
  let ?ps1 = "(pieces d)[idx := (pieces d ! idx)\<lparr>writing := False\<rparr>]"
  have i1: "invariant (bitfield d) ?ps1 (sortedPieces d) (connectedPeers d) (heap d) (nextPeer d)"
    using wf lt unfolding wellformed_def
    by (intro invariant_piece_same) simp_all
  have i2: "invariant (Set (bitfield d) idx) ?ps1 (sortedPieces d) (connectedPeers d) (heap d) (nextPeer d)"
    using i1 by (simp add: invariant_def Set_def)
  show ?thesis
  proof (cases err)
    case (Some e)
    then show ?thesis using r lt i1 by (auto simp add: Run_writeResponses_def Let_def wellformed_def)
  next
    case None
    let ?d2 = "d\<lparr>pieces := ?ps1, bitfield := Set (bitfield d) idx,
                   effects := effects d @ [CheckCompletion]\<rparr>"
    have "haveLoop idx (connectedPeers d) ?d2 = Inr d'"
      using None r lt by (simp add: Run_writeResponses_def Let_def)
    moreover have "wellformed ?d2"
      using i2 by (simp add: wellformed_def)
    ultimately show ?thesis by (rule haveLoop_wellformed [rotated])
  qed
qed

lemma set_update_subset: "set (AList.update k v m) \<subseteq> insert (k, v) (set m)"
  by (induction m) auto

lemma having_update_nonil:
  assumes "\<forall>(k, pe)\<in>set m. pe \<noteq> None" "v \<noteq> None"
  shows "\<forall>(k, pe)\<in>set (AList.update q v m). pe \<noteq> None"
  using assms set_update_subset [of q v m] by auto

lemma having_delete_nonil:
  assumes "\<forall>(k, pe)\<in>set m. pe \<noteq> None"
  shows "\<forall>(k, pe)\<in>set (AList.delete q m). pe \<noteq> None"
  using assms by (auto simp add: AList.delete_eq)

lemma invariant_having_update:
  assumes inv: "invariant bf ps sp cp h np" and lt: "i < length ps" and nn: "v \<noteq> None"
  shows "invariant bf (ps[i := (ps ! i)\<lparr>havingPeers := AList.update q v (havingPeers (ps ! i))\<rparr>])
           sp cp h np"
proof (rule invariant_piece_update [OF inv lt])
  show "Index ((ps ! i)\<lparr>havingPeers := AList.update q v (havingPeers (ps ! i))\<rparr>) = Index (ps ! i)"
    by simp
  have "\<forall>(k, pe)\<in>set (havingPeers (ps ! i)). pe \<noteq> None"
    using inv lt by (simp add: invariant_def)
  from having_update_nonil [OF this nn]
  show "\<forall>(k, pe)\<in>set (havingPeers ((ps ! i)
              \<lparr>havingPeers := AList.update q v (havingPeers (ps ! i))\<rparr>)). pe \<noteq> None"
    by simp
qed

lemma Run_Have_wellformed:
  assumes wf: "wellformed d" and r: "Run_Have k idx d = Inr d'"
  shows "wellformed d'"
proof -
  from r have lt: "idx < length (pieces d)"
    by (simp add: Run_Have_def Let_def split: if_splits)
  let ?pe = "map_of (connectedPeers d) k"
  let ?d1 = "d\<lparr>effects := effects d @ [Signal 1],
               pieces := (pieces d)[idx := (pieces d ! idx)
                 \<lparr>havingPeers := AList.update k ?pe (havingPeers (pieces d ! idx))\<rparr>]\<rparr>"
  from r lt have u: "updateInterestedState ?pe ?d1 = Inr d'"
    by (simp add: Run_Have_def Let_def)
  then have nn: "?pe \<noteq> None" using updateInterestedState_frame by blast
  have "wellformed ?d1"
    using invariant_having_update [OF wf [unfolded wellformed_def] lt nn]
    by (simp add: wellformed_def)
  then show ?thesis using u by (rule updateInterestedState_wellformed)
qed


lemma bitfieldLoop_frame:
  "bitfieldLoop k bf xs d = Inr d' \<Longrightarrow>
     bitfield d' = bitfield d \<and> sortedPieces d' = sortedPieces d
     \<and> connectedPeers d' = connectedPeers d \<and> heap d' = heap d \<and> nextPeer d' = nextPeer d
     \<and> effects d' = effects d"
  by (induction xs arbitrary: d) (auto split: if_splits)

lemma bitfieldLoop_wellformed:
  assumes "wellformed d" "bitfieldLoop k bf xs d = Inr d'" "map_of (connectedPeers d) k \<noteq> None"
  shows "wellformed d'"
  using assms
proof (induction xs arbitrary: d)
  case Nil
  then show ?case by simp
next
  case (Cons i xs)
  show ?case
  proof (cases "Test bf i")
    case False
    then show ?thesis using Cons by simp
  next
    case True
    let ?d1 = "d\<lparr>pieces := (pieces d)[i := (pieces d ! i)
                        \<lparr>havingPeers := AList.update k (map_of (connectedPeers d) k)
                                           (havingPeers (pieces d ! i))\<rparr>]\<rparr>"
    from Cons.prems(2) True have lt: "i < length (pieces d)"
      and rest: "bitfieldLoop k bf xs ?d1 = Inr d'"
      by (simp_all split: if_splits)
    have "wellformed ?d1"
      using invariant_having_update [OF Cons.prems(1) [unfolded wellformed_def] lt Cons.prems(3)]
      by (simp add: wellformed_def)
    moreover have "map_of (connectedPeers ?d1) k \<noteq> None" using Cons.prems(3) by simp
    ultimately show ?thesis using Cons.IH rest by blast
  qed
qed

lemma Run_Bitfield_wellformed:
  assumes wf: "wellformed d" and r: "Run_Bitfield k bf d = Inr d'"
  shows "wellformed d'"
proof -
  from r obtain d1 where l: "bitfieldLoop k bf [0..<length bf] d = Inr d1"
    and u: "updateInterestedState (map_of (connectedPeers d1) k)
              (d1\<lparr>effects := effects d1 @ [Signal (length (filter (\<lambda>b. b) bf))]\<rparr>) = Inr d'"
    by (auto simp add: Run_Bitfield_def split: sum.splits)
  from u have "map_of (connectedPeers d1) k \<noteq> None"
    using updateInterestedState_frame by blast
  then have "map_of (connectedPeers d) k \<noteq> None"
    using bitfieldLoop_frame [OF l] by simp
  from bitfieldLoop_wellformed [OF wf l this]
  have "wellformed (d1\<lparr>effects := effects d1 @ [Signal (length (filter (\<lambda>b. b) bf))]\<rparr>)"
    by (simp add: wellformed_def)
  then show ?thesis using u by (rule updateInterestedState_wellformed)
qed

lemma invariant_having_update_all:
  assumes inv: "invariant bf ps sp cp h np" and nn: "v \<noteq> None"
  shows "invariant bf (map (\<lambda>p. p\<lparr>havingPeers := AList.update q v (havingPeers p)\<rparr>) ps) sp cp h np"
proof -
  have "\<forall>(k, pe)\<in>set (AList.update q v (havingPeers (ps ! i))). pe \<noteq> None"
    if "i < length ps" for i
  proof (rule having_update_nonil [OF _ nn])
    show "\<forall>(k, pe)\<in>set (havingPeers (ps ! i)). pe \<noteq> None"
      using inv that by (simp add: invariant_def)
  qed
  then show ?thesis using inv by (simp add: invariant_def)
qed

lemma Run_HaveAll_wellformed:
  assumes wf: "wellformed d" and r: "Run_HaveAll k d = Inr d'"
  shows "wellformed d'"
proof -
  let ?pe = "map_of (connectedPeers d) k"
  let ?d1 = "d\<lparr>pieces := map (\<lambda>p. p\<lparr>havingPeers := AList.update k ?pe (havingPeers p)\<rparr>) (pieces d),
               effects := effects d @ [Signal (length (pieces d))]\<rparr>"
  from r have u: "updateInterestedState ?pe ?d1 = Inr d'"
    by (simp add: Run_HaveAll_def Let_def)
  then have nn: "?pe \<noteq> None" using updateInterestedState_frame by blast
  have "wellformed ?d1"
    using invariant_having_update_all [OF wf [unfolded wellformed_def] nn]
    by (simp add: wellformed_def)
  then show ?thesis using u by (rule updateInterestedState_wellformed)
qed

lemma Run_AllowedFast_wellformed:
  assumes wf: "wellformed d" and r: "Run_AllowedFast k idx d = Inr d'"
  shows "wellformed d'"
proof -
  from r have lt: "idx < length (pieces d)"
    by (simp add: Run_AllowedFast_def split: if_splits)
  let ?p = "(pieces d ! idx)\<lparr>allowedFastPeers := AList.update k (map_of (connectedPeers d) k)
                                                (allowedFastPeers (pieces d ! idx))\<rparr>"
  have "invariant (bitfield d) ((pieces d)[idx := ?p]) (sortedPieces d) (connectedPeers d)
          (heap d) (nextPeer d)"
    by (rule invariant_piece_same [OF wf [unfolded wellformed_def] lt]) simp_all
  then show ?thesis using r lt by (auto simp add: Run_AllowedFast_def Let_def wellformed_def)
qed

lemma Run_Unchoke_wellformed:
  assumes wf: "wellformed d" and r: "Run_Unchoke k d = Inr d'"
  shows "wellformed d'"
proof -
  from r obtain a where a: "map_of (connectedPeers d) k = Some a"
    by (auto simp add: Run_Unchoke_def Let_def split: option.splits)
  have "invariant (bitfield d) (pieces d) (sortedPieces d) (connectedPeers d)
          ((heap d)(a := (heap d a)\<lparr>peerChoking := False\<rparr>)) (nextPeer d)"
    by (rule invariant_heap_update [OF wf [unfolded wellformed_def]]) simp
  then show ?thesis using r a
    by (auto simp add: Run_Unchoke_def Let_def wellformed_def split: option.splits)
qed

lemma Run_Choke_wellformed:
  assumes wf: "wellformed d" and r: "Run_Choke k d = Inr d'"
  shows "wellformed d'"
proof -
  from r obtain a where a: "map_of (connectedPeers d) k = Some a"
    by (auto simp add: Run_Choke_def Let_def split: option.splits)
  have "invariant (bitfield d) (pieces d) (sortedPieces d) (connectedPeers d)
          ((heap d)(a := (heap d a)\<lparr>peerChoking := True\<rparr>)) (nextPeer d)"
    by (rule invariant_heap_update [OF wf [unfolded wellformed_def]]) simp
  then show ?thesis using r a
    by (auto simp add: Run_Choke_def Let_def wellformed_def split: option.splits)
qed

lemma Run_Piece_wellformed:
  assumes wf: "wellformed d" and r: "Run_Piece k n d = Inr d'"
  shows "wellformed d'"
proof -
  have "\<And>a. invariant (bitfield d) (pieces d) (sortedPieces d) (connectedPeers d)
          ((heap d)(a := (heap d a)\<lparr>bytesDownlaodedInChokePeriod :=
                         bytesDownlaodedInChokePeriod (heap d a) + word_of_nat n\<rparr>)) (nextPeer d)"
    by (rule invariant_heap_update [OF wf [unfolded wellformed_def]]) simp
  then show ?thesis using r wf
    by (auto simp add: Run_Piece_def Let_def wellformed_def split: option.splits)
qed

lemma Run_Request_wellformed:
  assumes wf: "wellformed d" and r: "Run_Request k fast idx begin len d = Inr d'"
  shows "wellformed d'"
  using assms by (auto simp add: Run_Request_def wellformed_def split: option.splits if_splits)


lemma set_delete_subset: "set (AList.delete k m) \<subseteq> set m"
  by (auto simp add: AList.delete_eq)

lemma foldl_wellformed:
  assumes "\<And>s x. wellformed s \<Longrightarrow> wellformed (f s x)" "wellformed d"
  shows "wellformed (foldl f d xs)"
  using assms(2) by (induction xs arbitrary: d) (simp_all add: assms(1))

lemma wellformed_heap_update:
  "wellformed s \<Longrightarrow> Peer p = Peer (heap s a) \<Longrightarrow> wellformed (s\<lparr>heap := (heap s)(a := p)\<rparr>)"
  by (simp add: wellformed_def invariant_heap_update)

lemma Run_unchokeTimer_wellformed:
  assumes wf: "wellformed d" and r: "Run_unchokeTimer d = Inr d'"
  shows "wellformed d'"
proof -
  have 1: "wellformed (foldl resetStep d xs)" for xs
    by (rule foldl_wellformed [OF _ wf]) (auto simp add: resetStep_def wellformed_heap_update)
  have 2: "wellformed (foldl (\<lambda>s pe. unchokePeer pe s) (foldl resetStep d xs) ys)" for xs ys
    by (rule foldl_wellformed [OF _ 1]) (rule unchokePeer_wellformed)
  have 3: "wellformed (foldl (chokeStep us)
                         (foldl (\<lambda>s pe. unchokePeer pe s) (foldl resetStep d xs) ys) zs)"
    for xs ys zs us
    by (rule foldl_wellformed [OF _ 2]) (auto simp add: chokeStep_def chokePeer_wellformed)
  from r show ?thesis
    using 3 by (auto simp add: Run_unchokeTimer_def Let_def)
qed

lemma Run_optimisticUnchokeTimer_wellformed:
  assumes wf: "wellformed d" and r: "Run_optimisticUnchokeTimer rnd d = Inr d'"
  shows "wellformed d'"
proof -
  let ?d1 = "case optimisticUnchokedPeer d of
               None \<Rightarrow> d
             | Some p0 \<Rightarrow>
                 chokePeer p0 (d\<lparr>heap := (heap d)(p0 := (heap d p0)\<lparr>optimisticUnhoked := False\<rparr>)\<rparr>)"
  have wf1: "wellformed ?d1"
    using wf by (auto simp add: chokePeer_wellformed wellformed_heap_update split: option.splits)
  have wf3: "wellformed (unchokePeer pe (?d1\<lparr>heap := (heap ?d1)(pe := (heap ?d1 pe)\<lparr>optimisticUnhoked := True\<rparr>)\<rparr>))"
    for pe
    by (rule unchokePeer_wellformed) (simp add: wellformed_heap_update wf1)
  have opt: "wellformed (s\<lparr>optimisticUnchokedPeer := x\<rparr>) = wellformed s" for s x
    by (simp add: wellformed_def)
  from r show ?thesis
    using wf3 by (auto simp add: Run_optimisticUnchokeTimer_def Let_def opt split: sum.splits)
qed

lemma Run_Connect_wellformed:
  assumes wf: "wellformed d" and r: "Run_Connect p d = Inr d'"
  shows "wellformed d'"
proof -
  let ?pe = "nextPeer d"
  let ?new = "\<lparr>Peer = p, amInterested = False, amChoking = True, peerChoking = True,
                optimisticUnhoked = False, bytesDownlaodedInChokePeriod = 0\<rparr>"
  let ?d1 = "d\<lparr>heap := (heap d)(?pe := ?new), nextPeer := Suc ?pe,
               connectedPeers := AList.update p ?pe (connectedPeers d)\<rparr>"
  have sub: "set (AList.update p ?pe (connectedPeers d)) \<subseteq> insert (p, ?pe) (set (connectedPeers d))"
    by (rule set_update_subset)
  have old: "\<forall>(k, a)\<in>set (connectedPeers d). Peer (heap d a) = k \<and> a < ?pe"
    using wf by (simp add: wellformed_def invariant_def)
  have "\<forall>(k, a)\<in>set (AList.update p ?pe (connectedPeers d)).
          Peer (((heap d)(?pe := ?new)) a) = k \<and> a < Suc ?pe"
    using sub old by fastforce
  then have wf1: "wellformed ?d1"
    using wf by (simp add: wellformed_def invariant_def distinct_update)
  from r have "d' = unchokePeer ?pe ?d1 \<or> d' = ?d1"
    by (auto simp add: Run_Connect_def Let_def split: if_splits)
  then show ?thesis using wf1 unchokePeer_wellformed by auto
qed

lemma Run_Disconnect_wellformed:
  assumes wf: "wellformed d" and r: "Run_Disconnect pe d = Inr d'"
  shows "wellformed d'"
proof -
  have cp: "\<forall>(k, a)\<in>set (AList.delete pe (connectedPeers d)). Peer (heap d a) = k \<and> a < nextPeer d"
    using wf set_delete_subset [of pe "connectedPeers d"]
    by (auto simp add: wellformed_def invariant_def)
  have hp: "\<forall>(k, x)\<in>set (AList.delete pe (havingPeers (pieces d ! i))). x \<noteq> None"
    if "i < length (pieces d)" for i
  proof (rule having_delete_nonil)
    show "\<forall>(k, x)\<in>set (havingPeers (pieces d ! i)). x \<noteq> None"
      using wf that by (simp add: wellformed_def invariant_def)
  qed
  from r have d': "d' = d\<lparr>connectedPeers := AList.delete pe (connectedPeers d),
            pieces := map (\<lambda>p. p\<lparr>havingPeers := AList.delete pe (havingPeers p),
                                  allowedFastPeers := AList.delete pe (allowedFastPeers p),
                                  requestedPeers := AList.delete pe (requestedPeers p)\<rparr>)
                        (pieces d)\<rparr>"
    by (simp add: Run_Disconnect_def)
  show ?thesis
    using wf cp hp by (simp add: d' wellformed_def invariant_def distinct_delete)
qed

lemma continue_Inr: "continue r = Inr c \<Longrightarrow> \<exists>d. r = Inr d \<and> c = Continue d"
  by (auto simp add: continue_def split: sum.splits)

theorem Run_select_wellformed:
  assumes wf: "wellformed d" and r: "Run_select V e d = Inr c"
  shows "wellformed (stateOf c)"
proof (cases e)
  case DownloadersWait
  then show ?thesis using r Run_downloadersWait_wellformed [OF wf] by (auto dest!: continue_Inr)
next
  case (DownloadDone pd res)
  then show ?thesis using Run_downloadDone_wellformed [OF wf] r by simp
next
  case (WriteResponse idx err)
  then show ?thesis using r Run_writeResponses_wellformed [OF wf] by (auto dest!: continue_Inr)
next
  case (Have k idx)
  then show ?thesis using r Run_Have_wellformed [OF wf] by (auto dest!: continue_Inr)
next
  case (Bitfield k bf)
  then show ?thesis using r Run_Bitfield_wellformed [OF wf] by (auto dest!: continue_Inr)
next
  case (HaveAll k)
  then show ?thesis using r Run_HaveAll_wellformed [OF wf] by (auto dest!: continue_Inr)
next
  case (AllowedFast k idx)
  then show ?thesis using r Run_AllowedFast_wellformed [OF wf] by (auto dest!: continue_Inr)
next
  case (Unchoke k)
  then show ?thesis using r Run_Unchoke_wellformed [OF wf] by (auto dest!: continue_Inr)
next
  case (Choke k)
  then show ?thesis using r Run_Choke_wellformed [OF wf] by (auto dest!: continue_Inr)
next
  case (PieceMsg k n)
  then show ?thesis using r Run_Piece_wellformed [OF wf] by (auto dest!: continue_Inr)
next
  case (Request k fast idx off len)
  then show ?thesis using r Run_Request_wellformed [OF wf] by (auto dest!: continue_Inr)
next
  case UnchokeTimer
  then show ?thesis using r Run_unchokeTimer_wellformed [OF wf] by (auto dest!: continue_Inr)
next
  case (OptimisticUnchokeTimer rnd)
  then show ?thesis
    using r Run_optimisticUnchokeTimer_wellformed [OF wf] by (auto dest!: continue_Inr)
next
  case (Connect p)
  then show ?thesis using r Run_Connect_wellformed [OF wf] by (auto dest!: continue_Inr)
next
  case (Disconnect pe)
  then show ?thesis using r Run_Disconnect_wellformed [OF wf] by (auto dest!: continue_Inr)
next
  case Stop
  then show ?thesis using wf r by auto
qed

theorem Run_wellformed:
  assumes "wellformed d" "Run V es d = Inr c"
  shows "wellformed (stateOf c)"
  using assms
proof (induction es arbitrary: d)
  case Nil
  then show ?case by auto
next
  case (Cons e es)
  from Cons.prems(2) obtain c1 where s: "Run_select V e d = Inr c1"
    by (auto split: sum.splits)
  have wf1: "wellformed (stateOf c1)" by (rule Run_select_wellformed [OF Cons.prems(1) s])
  show ?case
  proof (cases c1)
    case (Continue d1)
    then show ?thesis using Cons.IH [of d1] Cons.prems(2) s wf1 by simp
  next
    case (Return d1)
    then show ?thesis using Cons.prems(2) s wf1 by auto
  qed
qed

lemma wellformedD:
  assumes "wellformed d"
  shows "length (bitfield d) = length (pieces d)"
    and "set (sortedPieces d) = {..<length (pieces d)}"
    and "\<forall>i<length (pieces d). Index (pieces d ! i) = i"
    and "\<forall>p\<in>set (pieces d). \<forall>(k, pe)\<in>set (havingPeers p). pe \<noteq> None"
    and "\<forall>(k, a)\<in>set (connectedPeers d). Peer (heap d a) = k"
    and "distinct (map fst (connectedPeers d))"
proof -
  from assms have inv: "invariant (bitfield d) (pieces d) (sortedPieces d) (connectedPeers d)
                          (heap d) (nextPeer d)"
    by (simp add: wellformed_def)
  show "length (bitfield d) = length (pieces d)"
    and "set (sortedPieces d) = {..<length (pieces d)}"
    and "\<forall>i<length (pieces d). Index (pieces d ! i) = i"
    and "distinct (map fst (connectedPeers d))"
    using inv by (simp_all add: invariant_def)
  show "\<forall>(k, a)\<in>set (connectedPeers d). Peer (heap d a) = k"
    using inv by (auto simp add: invariant_def)
  show "\<forall>p\<in>set (pieces d). \<forall>(k, pe)\<in>set (havingPeers p). pe \<noteq> None"
  proof
    fix p assume "p \<in> set (pieces d)"
    then obtain i where "i < length (pieces d)" "p = pieces d ! i"
      by (auto simp add: in_set_conv_nth)
    then show "\<forall>(k, pe)\<in>set (havingPeers p). pe \<noteq> None"
      using inv by (simp add: invariant_def)
  qed
qed

subsection \<open>The announcer\<close>

text \<open>
  C9. The back-off that \<^verbatim>\<open>New\<close> builds has initial interval 5 s, multiplier 2, maximal
  interval 30 min, randomisation factor 0.5 and no maximal elapsed time (it never stops).
  After an announce whose tracker call returned an error, \<open>nextAnnounce\<close> is what
  \<^verbatim>\<open>NextBackOff\<close> of that back-off returned, and nothing is sent to the peer list. After an
  announce whose tracker call succeeded, the back-off is reset, \<open>nextAnnounce\<close> is the
  interval of the response, and the peers of the response are sent to the peer list
  (unless \<^verbatim>\<open>stopC\<close> wins that last \<^verbatim>\<open>select\<close>).
\<close>

theorem announce_sets_nextAnnounce:
  "InitialInterval (backoff (Announcer_New z)) = 5 * Second
   \<and> Multiplier (backoff (Announcer_New z)) = 2
   \<and> MaxInterval (backoff (Announcer_New z)) = 30 * Minute
   \<and> RandomizationFactor (backoff (Announcer_New z)) = 1 / 2
   \<and> MaxElapsedTime (backoff (Announcer_New z)) = 0
   \<and> nextAnnounce (announce NextBackOff Reset e (AnnounceErr t err) a) = fst (NextBackOff (backoff a))
   \<and> backoff (announce NextBackOff Reset e (AnnounceErr t err) a) = snd (NextBackOff (backoff a))
   \<and> calls (announce NextBackOff Reset e (AnnounceErr t err) a)
         = calls a @ [RequestTransfer, TrackerAnnounce t e]
   \<and> backoff (announce NextBackOff Reset e (AnnounceOk t interval peers pushed) a) = Reset (backoff a)
   \<and> nextAnnounce (announce NextBackOff Reset e (AnnounceOk t interval peers pushed) a) = interval
   \<and> calls (announce NextBackOff Reset e (AnnounceOk t interval peers True) a)
         = calls a @ [RequestTransfer, TrackerAnnounce t e, NewPeers peers]
   \<and> calls (announce NextBackOff Reset e (AnnounceOk t interval peers False) a)
         = calls a @ [RequestTransfer, TrackerAnnounce t e]"
  by (simp add: Announcer_New_def announce_def split_beta)

end
